theory Spec2Isabelle
  imports Main "HOL-Library.AList"
begin

section \<open>The direct-message room index (class DMRoomMap)\<close>

text \<open>
  The class \<^verbatim>\<open>DMRoomMap\<close> keeps a private copy of the \<^verbatim>\<open>m.direct\<close> account data (a
  JavaScript object from user identifiers to arrays of room identifiers), repairs
  rooms that are wrongly listed under the own user, and inverts the map lazily.

  A JavaScript object with string keys is an association list: the order of the entries
  is the insertion order that \<^verbatim>\<open>Object.keys\<close> and \<^verbatim>\<open>Object.values\<close> enumerate,
  \<open>map_of obj k\<close> is the read \<^verbatim>\<open>obj[k]\<close> (\<open>None\<close> for \<^verbatim>\<open>undefined\<close>) and
  \<open>AList.update k v obj\<close> is the assignment \<^verbatim>\<open>obj[k] = v\<close>, which keeps the place of a key
  that exists and puts a new key last. Keys are Matrix identifiers (\<^verbatim>\<open>@user:server\<close>,
  \<^verbatim>\<open>!room:server\<close>): none of them is an array index, which JavaScript would enumerate
  first, or the name of an inherited property of \<^verbatim>\<open>Object.prototype\<close>.
\<close>

type_synonym 'v jsobject = "(string \<times> 'v) list"

subsection \<open>The session: rooms, events, the client\<close>

text \<open>
  What the index asks of a \<^verbatim>\<open>Room\<close> of the client SDK. \<open>None\<close> is a result
  \<^verbatim>\<open>undefined\<close> or \<^verbatim>\<open>null\<close>.
\<close>

record room =
  room_id :: string
  guessDMUserId :: "string option"
  getMyMembership :: string
  getDMInviter :: "string option"
  getInvitedAndJoinedMemberCount :: nat

text \<open>
  An account-data event. The type of the values of its content is a parameter: the
  class declares them \<^verbatim>\<open>string[]\<close>, and nothing checks what a server really sent.
\<close>

record 'v matrixEvent =
  getType :: string
  getContent :: "'v jsobject option"

record 'v matrixClient =
  getUserId :: string
  getRoom :: "string \<Rightarrow> room option"
  getAccountData :: "string \<Rightarrow> 'v matrixEvent option"

definition EventType_Direct :: string where
  "EventType_Direct = ''m.direct''"

subsection \<open>The fields of the class\<close>

text \<open>
  The four fields of the class, and the trace of its two effects on the outside:
  \<open>setAccountDataCalls\<close> holds the argument of every call of
  \<^verbatim>\<open>matrixClient.setAccountData(EventType.Direct, _)\<close> this instance made, oldest first,
  and \<open>warnings\<close> every message given to \<^verbatim>\<open>logger.warn\<close>. The promise that
  \<^verbatim>\<open>setAccountData\<close> returns is dropped by the code, so whether the write succeeded is
  never seen by the class and is no part of its state.

  In \<^verbatim>\<open>getUserToRooms\<close> the local \<^verbatim>\<open>userToRooms\<close> is the object \<^verbatim>\<open>this.mDirectEvent\<close>
  itself, \<^verbatim>\<open>patchUpSelfDMs\<close> assigns to its properties, and the same object is stored in
  \<^verbatim>\<open>this.userToRooms\<close>: the model writes the patched object to both fields.
\<close>

record 'v dmRoomMap =
  roomToUser :: "string jsobject option"
  userToRooms :: "'v jsobject option"
  hasSentOutPatchDirectAccountDataPatch :: bool
  mDirectEvent :: "'v jsobject"
  setAccountDataCalls :: "'v jsobject list"
  warnings :: "string list"

text \<open>
  \<^verbatim>\<open>matrixClient.getAccountData(EventType.Direct)?.getContent() ?? {}\<close>, copied with a
  spread (the copy has the keys of the content in their order).
\<close>

definition constructor :: "'v matrixClient \<Rightarrow> 'v dmRoomMap" where
  "constructor matrixClient =
     (let mDirectEvent' =
            (case getAccountData matrixClient EventType_Direct of
               None \<Rightarrow> []
             | Some ev \<Rightarrow> (case getContent ev of None \<Rightarrow> [] | Some content \<Rightarrow> content))
      in \<lparr> roomToUser = None, userToRooms = None,
           hasSentOutPatchDirectAccountDataPatch = False,
           mDirectEvent = mDirectEvent',
           setAccountDataCalls = [], warnings = [] \<rparr>)"

definition onAccountData :: "'v matrixEvent \<Rightarrow> 'v dmRoomMap \<Rightarrow> 'v dmRoomMap" where
  "onAccountData ev this =
     (if getType ev = EventType_Direct
      then this\<lparr> mDirectEvent := (case getContent ev of None \<Rightarrow> [] | Some content \<Rightarrow> content),
                 userToRooms := None,
                 roomToUser := None \<rparr>
      else this)"

subsection \<open>The repair of self-chats\<close>

text \<open>
  \<^verbatim>\<open>uniq\<close> of lodash keeps the first occurrence of every element, in order: it walks the
  array and appends an element to the result when the result does not hold it yet.
\<close>

fun uniq_from :: "'a list \<Rightarrow> 'a list \<Rightarrow> 'a list" where
  "uniq_from result [] = result"
| "uniq_from result (x # xs) =
     (if x \<in> set result then uniq_from result xs else uniq_from (result @ [x]) xs)"

definition uniq :: "'a list \<Rightarrow> 'a list" where
  "uniq xs = uniq_from [] xs"

text \<open>
  The callback of \<^verbatim>\<open>selfRoomIds.map\<close> in \<^verbatim>\<open>patchUpSelfDMs\<close>; \<open>None\<close> is the
  \<^verbatim>\<open>undefined\<close> that the following \<^verbatim>\<open>filter\<close> drops. The pair is \<^verbatim>\<open>{ userId, roomId }\<close>.
  The test \<^verbatim>\<open>userId && userId !== myUserId\<close> fails on the empty string as on \<^verbatim>\<open>undefined\<close>.
\<close>

definition guessedUserId :: "'v matrixClient \<Rightarrow> string \<Rightarrow> (string \<times> string) option" where
  "guessedUserId matrixClient roomId =
     (case getRoom matrixClient roomId of
        None \<Rightarrow> None
      | Some room \<Rightarrow>
          (case guessDMUserId room of
             None \<Rightarrow> None
           | Some userId \<Rightarrow>
               if userId \<noteq> [] \<and> userId \<noteq> getUserId matrixClient
               then Some (userId, roomId) else None))"

text \<open>
  The body of \<^verbatim>\<open>guessedUserIdsThatChanged.forEach\<close>. An array that exists gets the room
  by \<^verbatim>\<open>push\<close>, and the property is then set to a new array, \<^verbatim>\<open>uniq(roomIds)\<close>. The
  array that was pushed to may be one of the event's content (the spread in the constructor
  copies the object, not its arrays); the instance does not read it again, and the model
  keeps the content of an event as a value.
\<close>

definition reassign ::
  "string \<times> string \<Rightarrow> (string list) jsobject \<Rightarrow> (string list) jsobject" where
  "reassign ids obj =
     (case map_of obj (fst ids) of
        None \<Rightarrow> AList.update (fst ids) [snd ids] obj
      | Some roomIds \<Rightarrow> AList.update (fst ids) (uniq (roomIds @ [snd ids])) obj)"

text \<open>
  \<^verbatim>\<open>patchUpSelfDMs\<close> changes its argument in place and returns whether it did; the model
  returns the object after the call with the flag.
\<close>

definition patchUpSelfDMs ::
  "(string list) matrixClient \<Rightarrow> (string list) jsobject \<Rightarrow> (string list) jsobject \<times> bool" where
  "patchUpSelfDMs matrixClient obj =
     (let myUserId = getUserId matrixClient in
      case map_of obj myUserId of
        None \<Rightarrow> (obj, False)
      | Some selfRoomIds \<Rightarrow>
          (let guessedUserIdsThatChanged = List.map_filter (guessedUserId matrixClient) selfRoomIds
           in if guessedUserIdsThatChanged = [] then (obj, False)
              else
                (let kept = filter (\<lambda>roomId. \<not> list_ex (\<lambda>ids. snd ids = roomId)
                                                  guessedUserIdsThatChanged) selfRoomIds
                 in (fold reassign guessedUserIdsThatChanged (AList.update myUserId kept obj),
                     True))))"

definition warning_text :: string where
  "warning_text =
     ''Invalid m.direct account data detected (self-chats that shouldn't be), patching it up.''"

definition getUserToRooms ::
  "(string list) matrixClient \<Rightarrow> (string list) dmRoomMap
     \<Rightarrow> (string list) jsobject \<times> (string list) dmRoomMap" where
  "getUserToRooms matrixClient this =
     (case userToRooms this of
        Some cached \<Rightarrow> (cached, this)
      | None \<Rightarrow>
          (let myUserId = getUserId matrixClient;
               selfDMs = map_of (mDirectEvent this) myUserId
           in if (case selfDMs of None \<Rightarrow> False | Some l \<Rightarrow> l \<noteq> [])
              then
                (let (patched, neededPatching) = patchUpSelfDMs matrixClient (mDirectEvent this);
                     warned = this\<lparr> warnings := warnings this @ [warning_text] \<rparr>;
                     sent =
                       (if neededPatching \<and> \<not> hasSentOutPatchDirectAccountDataPatch warned
                        then warned\<lparr> hasSentOutPatchDirectAccountDataPatch := True,
                                     setAccountDataCalls := setAccountDataCalls warned @ [patched] \<rparr>
                        else warned)
                 in (patched, sent\<lparr> mDirectEvent := patched, userToRooms := Some patched \<rparr>))
              else (mDirectEvent this, this\<lparr> userToRooms := Some (mDirectEvent this) \<rparr>)))"

subsection \<open>The queries\<close>

definition getDMRoomsForUserId ::
  "(string list) matrixClient \<Rightarrow> (string list) dmRoomMap \<Rightarrow> string
     \<Rightarrow> string list \<times> (string list) dmRoomMap" where
  "getDMRoomsForUserId matrixClient this userId =
     (let (obj, this') = getUserToRooms matrixClient this
      in (case map_of obj userId of None \<Rightarrow> [] | Some roomIds \<Rightarrow> roomIds, this'))"

text \<open>
  The two nested loops of \<^verbatim>\<open>populateRoomToUser\<close>. The keys come from the object that
  \<^verbatim>\<open>getUserToRooms\<close> returned, which is \<^verbatim>\<open>this.userToRooms\<close>, so the read
  \<^verbatim>\<open>this.userToRooms![user]\<close> finds an array for every key; the \<open>None\<close> branch is
  there for totality.
\<close>

definition invertUserToRooms :: "(string list) jsobject \<Rightarrow> string jsobject" where
  "invertUserToRooms obj =
     fold (\<lambda>user acc.
             fold (\<lambda>roomId acc'. AList.update roomId user acc')
                  (case map_of obj user of None \<Rightarrow> [] | Some roomIds \<Rightarrow> roomIds) acc)
          (map fst obj) []"

definition populateRoomToUser ::
  "(string list) matrixClient \<Rightarrow> (string list) dmRoomMap \<Rightarrow> (string list) dmRoomMap" where
  "populateRoomToUser matrixClient this =
     (let (obj, this') = getUserToRooms matrixClient (this\<lparr> roomToUser := Some [] \<rparr>)
      in this'\<lparr> roomToUser := Some (invertUserToRooms obj) \<rparr>)"

definition getUserIdForRoomId ::
  "(string list) matrixClient \<Rightarrow> (string list) dmRoomMap \<Rightarrow> string
     \<Rightarrow> string option \<times> (string list) dmRoomMap" where
  "getUserIdForRoomId matrixClient this roomId =
     (let this' = (if roomToUser this = None then populateRoomToUser matrixClient this else this);
          index = (case roomToUser this' of None \<Rightarrow> [] | Some obj \<Rightarrow> obj)
      in case map_of index roomId of
           None \<Rightarrow>
             (case getRoom matrixClient roomId of
                Some room \<Rightarrow> (getDMInviter room, this')
              | None \<Rightarrow> (None, this'))
         | Some userId \<Rightarrow> (Some userId, this'))"

text \<open>
  The loop of \<^verbatim>\<open>getDMRoomForIdentifiers\<close> over \<^verbatim>\<open>ids[1]\<close>, \<^verbatim>\<open>ids[2]\<close>, ...
\<close>

fun commonRoomsLoop ::
  "(string list) matrixClient \<Rightarrow> string list \<Rightarrow> string list \<Rightarrow> (string list) dmRoomMap
     \<Rightarrow> string list \<times> (string list) dmRoomMap" where
  "commonRoomsLoop matrixClient [] commonRooms this = (commonRooms, this)"
| "commonRoomsLoop matrixClient (i # ids) commonRooms this =
     (let (userRooms, this') = getDMRoomsForUserId matrixClient this i
      in commonRoomsLoop matrixClient ids (filter (\<lambda>r. r \<in> set userRooms) commonRooms) this')"

text \<open>
  The rooms are looked up in \<^verbatim>\<open>MatrixClientPeg.get()\<close>, not in \<^verbatim>\<open>this.matrixClient\<close>: the
  peg's client is a parameter of its own. On an empty array \<^verbatim>\<open>ids[0]\<close> is
  \<^verbatim>\<open>undefined\<close>, which as a property key is the string \<^verbatim>\<open>"undefined"\<close>.
\<close>

definition getDMRoomForIdentifiers ::
  "(string list) matrixClient \<Rightarrow> (string list) matrixClient \<Rightarrow> (string list) dmRoomMap
     \<Rightarrow> string list \<Rightarrow> room option \<times> (string list) dmRoomMap" where
  "getDMRoomForIdentifiers matrixClient peg this ids =
     (let (first, this0) =
            getDMRoomsForUserId matrixClient this
              (case ids of [] \<Rightarrow> ''undefined'' | i # _ \<Rightarrow> i);
          (commonRooms, this1) = commonRoomsLoop matrixClient (tl ids) first this0;
          joinedRooms =
            filter (\<lambda>r. case r of None \<Rightarrow> False | Some room \<Rightarrow> getMyMembership room = ''join'')
                   (map (getRoom peg) commonRooms)
      in (case joinedRooms of [] \<Rightarrow> None | r # _ \<Rightarrow> r, this1))"

text \<open>The callback of \<^verbatim>\<open>map\<close> in \<^verbatim>\<open>getUniqueRoomsWithIndividuals\<close>, room by room.\<close>

fun withIndividuals ::
  "(string list) matrixClient \<Rightarrow> string list \<Rightarrow> (string list) dmRoomMap
     \<Rightarrow> (string option \<times> room option) list \<times> (string list) dmRoomMap" where
  "withIndividuals matrixClient [] this = ([], this)"
| "withIndividuals matrixClient (r # rs) this =
     (let (userId, this') = getUserIdForRoomId matrixClient this r;
          (rest, this'') = withIndividuals matrixClient rs this'
      in ((userId, getRoom matrixClient r) # rest, this''))"

definition isIndividual :: "string option \<times> room option \<Rightarrow> bool" where
  "isIndividual r =
     (case r of
        (Some userId, Some room) \<Rightarrow> userId \<noteq> [] \<and> getInvitedAndJoinedMemberCount room = 2
      | _ \<Rightarrow> False)"

definition assignRoom :: "string option \<times> room option \<Rightarrow> room jsobject \<Rightarrow> room jsobject" where
  "assignRoom r obj =
     (case r of (Some userId, Some room) \<Rightarrow> AList.update userId room obj | _ \<Rightarrow> obj)"

definition getUniqueRoomsWithIndividuals ::
  "(string list) matrixClient \<Rightarrow> (string list) dmRoomMap
     \<Rightarrow> room jsobject \<times> (string list) dmRoomMap" where
  "getUniqueRoomsWithIndividuals matrixClient this =
     (case roomToUser this of
        None \<Rightarrow> ([], this)
      | Some index \<Rightarrow>
          (let (pairs, this') = withIndividuals matrixClient (map fst index) this
           in (fold assignRoom (filter isIndividual pairs) [], this')))"

definition getRoomIds :: "(string list) dmRoomMap \<Rightarrow> string set" where
  "getRoomIds this =
     fold (\<lambda>roomIds prevRoomIds. fold insert roomIds prevRoomIds)
          (map snd (mDirectEvent this)) {}"

subsection \<open>The life of one instance\<close>

text \<open>
  The calls an instance receives after its construction: \<^verbatim>\<open>start()\<close> (which rebuilds
  the room index; the subscription it makes is what later delivers \<open>OnAccountData\<close>),
  a delivered account-data notification, and the five queries. Every call comes with the
  session as it is at that moment (the client of the instance and the client of the peg),
  since rooms and memberships change between calls.
\<close>

datatype call =
    Start
  | OnAccountData "(string list) matrixEvent"
  | GetDMRoomsForUserId string
  | GetDMRoomForIdentifiers "string list"
  | GetUserIdForRoomId string
  | GetUniqueRoomsWithIndividuals
  | GetRoomIds

fun perform ::
  "(string list) matrixClient \<Rightarrow> (string list) matrixClient \<Rightarrow> call
     \<Rightarrow> (string list) dmRoomMap \<Rightarrow> (string list) dmRoomMap" where
  "perform matrixClient peg Start this = populateRoomToUser matrixClient this"
| "perform matrixClient peg (OnAccountData ev) this = onAccountData ev this"
| "perform matrixClient peg (GetDMRoomsForUserId userId) this =
     snd (getDMRoomsForUserId matrixClient this userId)"
| "perform matrixClient peg (GetDMRoomForIdentifiers ids) this =
     snd (getDMRoomForIdentifiers matrixClient peg this ids)"
| "perform matrixClient peg (GetUserIdForRoomId roomId) this =
     snd (getUserIdForRoomId matrixClient this roomId)"
| "perform matrixClient peg GetUniqueRoomsWithIndividuals this =
     snd (getUniqueRoomsWithIndividuals matrixClient this)"
| "perform matrixClient peg GetRoomIds this = this"

definition run ::
  "((string list) matrixClient \<times> (string list) matrixClient \<times> call) list
     \<Rightarrow> (string list) dmRoomMap \<Rightarrow> (string list) dmRoomMap" where
  "run calls this = fold (\<lambda>(matrixClient, peg, c). perform matrixClient peg c) calls this"

text \<open>
  The states an instance can be in: the cached user index is the object
  \<^verbatim>\<open>this.mDirectEvent\<close>, and the room index, when built, was computed from it.
\<close>

definition cache_ok :: "(string list) dmRoomMap \<Rightarrow> bool" where
  "cache_ok this =
     (case userToRooms this of
        None \<Rightarrow> roomToUser this = None
      | Some obj \<Rightarrow>
          obj = mDirectEvent this \<and>
          (case roomToUser this of
             None \<Rightarrow> True
           | Some index \<Rightarrow> index = invertUserToRooms obj))"

subsection \<open>The shared instance of the process\<close>

text \<open>
  \<^verbatim>\<open>DMRoomMap.makeShared()\<close> constructs a new instance from the peg's client and stores
  it in the static field \<^verbatim>\<open>sharedInstance\<close>. The instances it replaced are kept here
  for their traces only: a write-back they attempted has happened in this process.
\<close>

record process =
  sharedInstance :: "(string list) dmRoomMap option"
  earlierInstances :: "(string list) dmRoomMap list"

definition process_start :: process where
  "process_start = \<lparr> sharedInstance = None, earlierInstances = [] \<rparr>"

definition makeShared :: "(string list) matrixClient \<Rightarrow> process \<Rightarrow> process" where
  "makeShared peg p =
     \<lparr> sharedInstance = Some (constructor peg),
       earlierInstances =
         (case sharedInstance p of
            None \<Rightarrow> earlierInstances p
          | Some old \<Rightarrow> earlierInstances p @ [old]) \<rparr>"

text \<open>A call made on \<^verbatim>\<open>DMRoomMap.shared()\<close>.\<close>

definition onShared ::
  "((string list) dmRoomMap \<Rightarrow> (string list) dmRoomMap) \<Rightarrow> process \<Rightarrow> process" where
  "onShared f p =
     (case sharedInstance p of
        None \<Rightarrow> p
      | Some inst \<Rightarrow> p\<lparr> sharedInstance := Some (f inst) \<rparr>)"

definition writeBacks :: "process \<Rightarrow> (string list) jsobject list" where
  "writeBacks p =
     concat (map setAccountDataCalls
               (earlierInstances p @ (case sharedInstance p of None \<Rightarrow> [] | Some inst \<Rightarrow> [inst])))"

subsection \<open>Account data as the server sent it\<close>

text \<open>
  The content of an event is JSON, and the class does not check it against the type it
  declares. For the constructor, the notification handler and \<^verbatim>\<open>getRoomIds\<close> (which
  reads the stored object directly) the values are modelled as they can arrive. A number
  carries no value here: none of the code looks at one.
\<close>

datatype json =
    JNull
  | JBool bool
  | JNumber
  | JString string
  | JArray "json list"
  | JObject "(string \<times> json) list"

datatype error = TypeError

text \<open>
  \<^verbatim>\<open>roomIds.forEach((roomId) => prevRoomIds.add(roomId))\<close>: only an array has a method
  \<^verbatim>\<open>forEach\<close>. On \<^verbatim>\<open>null\<close> the property read throws, on a string, number or boolean
  the property is \<^verbatim>\<open>undefined\<close> and the call throws, and an object parsed from JSON has
  no callable property.
\<close>

definition forEach_add :: "json \<Rightarrow> json set \<Rightarrow> error + json set" where
  "forEach_add roomIds prevRoomIds =
     (case roomIds of
        JArray xs \<Rightarrow> Inr (fold insert xs prevRoomIds)
      | _ \<Rightarrow> Inl TypeError)"

fun reduce_values :: "json list \<Rightarrow> json set \<Rightarrow> error + json set" where
  "reduce_values [] prevRoomIds = Inr prevRoomIds"
| "reduce_values (roomIds # rest) prevRoomIds =
     (case forEach_add roomIds prevRoomIds of
        Inl e \<Rightarrow> Inl e
      | Inr prevRoomIds' \<Rightarrow> reduce_values rest prevRoomIds')"

definition getRoomIds_unchecked :: "json dmRoomMap \<Rightarrow> error + json set" where
  "getRoomIds_unchecked this = reduce_values (map snd (mDirectEvent this)) {}"

text \<open>A value of the declared type \<^verbatim>\<open>string[]\<close>, as JSON.\<close>

definition room_list :: "string list \<Rightarrow> json" where
  "room_list roomIds = JArray (map JString roomIds)"

definition is_array :: "json \<Rightarrow> bool" where
  "is_array v = (case v of JArray xs \<Rightarrow> True | _ \<Rightarrow> False)"

subsection \<open>Sessions to evaluate the code on\<close>

definition a_room :: "string \<Rightarrow> string option \<Rightarrow> string \<Rightarrow> nat \<Rightarrow> room" where
  "a_room rid guess membership members =
     \<lparr> room_id = rid, guessDMUserId = guess, getMyMembership = membership,
       getDMInviter = None, getInvitedAndJoinedMemberCount = members \<rparr>"

definition direct_event :: "'v jsobject \<Rightarrow> 'v matrixEvent" where
  "direct_event content = \<lparr> getType = EventType_Direct, getContent = Some content \<rparr>"

definition session :: "string \<Rightarrow> room list \<Rightarrow> 'v matrixEvent option \<Rightarrow> 'v matrixClient" where
  "session me rooms direct =
     \<lparr> getUserId = me,
       getRoom = (\<lambda>rid. find (\<lambda>room. room_id room = rid) rooms),
       getAccountData = (\<lambda>eventType. if eventType = EventType_Direct then direct else None) \<rparr>"

text \<open>
  One room, listed under the own user although the session guesses that it is a
  conversation with \<^verbatim>\<open>@bob:hs\<close>.
\<close>

definition misfiled_session :: "(string list) matrixClient" where
  "misfiled_session =
     session ''@me:hs'' [a_room ''!r:hs'' (Some ''@bob:hs'') ''join'' 2]
       (Some (direct_event [(''@me:hs'', [''!r:hs''])]))"

text \<open>A room with nobody but the own user: a self-chat that is one.\<close>

definition notes_session :: "(string list) matrixClient" where
  "notes_session =
     session ''@me:hs'' [a_room ''!notes:hs'' (Some ''@me:hs'') ''join'' 1]
       (Some (direct_event [(''@me:hs'', [''!notes:hs''])]))"

text \<open>Two users and three rooms, the second of them listed under both users.\<close>

definition shared_room_session :: "(string list) matrixClient" where
  "shared_room_session =
     session ''@me:hs''
       [a_room ''!r1:hs'' (Some ''@alice:hs'') ''join'' 2,
        a_room ''!r2:hs'' (Some ''@alice:hs'') ''join'' 2,
        a_room ''!r3:hs'' (Some ''@bob:hs'') ''invite'' 3]
       (Some (direct_event [(''@alice:hs'', [''!r1:hs'', ''!r2:hs'']),
                            (''@bob:hs'', [''!r2:hs'', ''!r3:hs''])]))"

text \<open>
  Two rooms with \<^verbatim>\<open>@alice:hs\<close>, each with two members, and a room listed for
  \<^verbatim>\<open>@bob:hs\<close> that has grown to three members.
\<close>

definition group_session :: "(string list) matrixClient" where
  "group_session =
     session ''@me:hs''
       [a_room ''!r1:hs'' (Some ''@alice:hs'') ''join'' 2,
        a_room ''!r2:hs'' (Some ''@alice:hs'') ''join'' 2,
        a_room ''!g:hs'' (Some ''@bob:hs'') ''join'' 3]
       (Some (direct_event [(''@alice:hs'', [''!r1:hs'', ''!r2:hs'']),
                            (''@bob:hs'', [''!g:hs''])]))"

text \<open>
  Account data in which the value for \<^verbatim>\<open>@alice:hs\<close> is a room identifier, not an array
  of room identifiers.
\<close>

definition malformed_session :: "json matrixClient" where
  "malformed_session =
     session ''@me:hs'' [] (Some (direct_event [(''@alice:hs'', JString ''!r:hs'')]))"

section \<open>The repair of self-chats\<close>

subsection \<open>\<^verbatim>\<open>uniq\<close> keeps first occurrences\<close>

lemma uniq_from_append: "uniq_from res (xs @ ys) = uniq_from (uniq_from res xs) ys"
  by (induction xs arbitrary: res) auto

lemma set_uniq_from: "set (uniq_from res xs) = set res \<union> set xs"
  by (induction xs arbitrary: res) auto

lemma distinct_uniq_from: "distinct res \<Longrightarrow> distinct (uniq_from res xs)"
  by (induction xs arbitrary: res) auto

lemma uniq_from_distinct: "distinct (res @ xs) \<Longrightarrow> uniq_from res xs = res @ xs"
  by (induction xs arbitrary: res) auto

lemma set_uniq: "set (uniq xs) = set xs"
  by (simp add: uniq_def set_uniq_from)

lemma distinct_uniq: "distinct (uniq xs)"
  by (simp add: uniq_def distinct_uniq_from)

lemma uniq_uniq_append: "uniq (uniq xs @ ys) = uniq (xs @ ys)"
proof -
  have "uniq_from [] (uniq xs) = uniq xs"
    using uniq_from_distinct [of "[]" "uniq xs"] by (simp add: distinct_uniq)
  then show ?thesis
    by (simp add: uniq_def uniq_from_append)
qed

lemma uniq_single: "uniq [x] = [x]"
  by (simp add: uniq_def)

subsection \<open>What the repair leaves under every key\<close>

lemma map_of_reassign:
  "map_of (reassign ids obj) v =
     (if v = fst ids
      then Some (uniq ((case map_of obj v of None \<Rightarrow> [] | Some l \<Rightarrow> l) @ [snd ids]))
      else map_of obj v)"
  by (simp add: reassign_def update_conv' uniq_single split: option.splits)

lemma map_of_fold_reassign:
  "map_of (fold reassign g obj) v =
     (if v \<in> fst ` set g
      then Some (uniq ((case map_of obj v of None \<Rightarrow> [] | Some l \<Rightarrow> l)
                        @ map snd (filter (\<lambda>ids. fst ids = v) g)))
      else map_of obj v)"
proof (induction g arbitrary: obj)
  case Nil
  then show ?case by simp
next
  case (Cons ids g)
  let ?old = "(case map_of obj v of None \<Rightarrow> [] | Some l \<Rightarrow> l)"
  let ?rest = "map snd (filter (\<lambda>ids. fst ids = v) g)"
  show ?case
  proof (cases "v = fst ids")
    case True
    have step: "map_of (reassign ids obj) v = Some (uniq (?old @ [snd ids]))"
      using True by (simp add: map_of_reassign)
    show ?thesis
    proof (cases "v \<in> fst ` set g")
      case True
      have "map_of (fold reassign g (reassign ids obj)) v
              = Some (uniq (uniq (?old @ [snd ids]) @ ?rest))"
        using True by (simp add: Cons.IH step)
      also have "uniq (uniq (?old @ [snd ids]) @ ?rest) = uniq ((?old @ [snd ids]) @ ?rest)"
        by (rule uniq_uniq_append)
      finally show ?thesis using \<open>v = fst ids\<close> by simp
    next
      case False
      then have "?rest = []"
        by (auto simp add: filter_empty_conv)
      moreover have "map_of (fold reassign g (reassign ids obj)) v
              = Some (uniq (?old @ [snd ids]))"
        using False by (simp add: Cons.IH step)
      ultimately show ?thesis using \<open>v = fst ids\<close> by simp
    qed
  next
    case False
    then show ?thesis
      by (auto simp add: Cons.IH map_of_reassign)
  qed
qed

lemma guessedUserId_Some:
  "guessedUserId c r = Some ids \<longleftrightarrow>
     (\<exists>room. getRoom c r = Some room \<and> guessDMUserId room = Some (fst ids)
        \<and> fst ids \<noteq> [] \<and> fst ids \<noteq> getUserId c \<and> snd ids = r)"
  by (cases ids) (auto simp add: guessedUserId_def split: option.splits)

lemma guessedUserId_snd: "guessedUserId c r = Some ids \<Longrightarrow> snd ids = r"
  by (auto simp add: guessedUserId_Some)

lemma guessedUserId_fst:
  "guessedUserId c r = Some ids \<Longrightarrow> fst ids \<noteq> getUserId c \<and> fst ids \<noteq> []"
  by (auto simp add: guessedUserId_Some)

lemma set_map_filter: "set (List.map_filter f xs) = {y. \<exists>x \<in> set xs. f x = Some y}"
  by (induction xs) (auto simp add: List.map_filter_simps split: option.splits)

lemma guessed_rooms_of:
  "map snd (filter (\<lambda>ids. fst ids = v) (List.map_filter (guessedUserId c) rs))
     = filter (\<lambda>r. guessedUserId c r = Some (v, r)) rs"
proof (induction rs)
  case Nil
  then show ?case by (simp add: List.map_filter_simps)
next
  case (Cons r rs)
  show ?case
  proof (cases "guessedUserId c r")
    case None
    then show ?thesis using Cons by (simp add: List.map_filter_simps)
  next
    case (Some ids)
    then have "snd ids = r" by (rule guessedUserId_snd)
    then have "ids = (fst ids, r)" by (cases ids) simp
    then show ?thesis using Cons Some
      by (cases "fst ids = v") (auto simp add: List.map_filter_simps)
  qed
qed


lemma kept_rooms:
  "filter (\<lambda>roomId. \<not> list_ex (\<lambda>ids. snd ids = roomId)
                           (List.map_filter (guessedUserId c) rs)) rs
     = filter (\<lambda>r. guessedUserId c r = None) rs"
proof (rule filter_cong [OF refl])
  fix r assume r: "r \<in> set rs"
  show "(\<not> list_ex (\<lambda>ids. snd ids = r) (List.map_filter (guessedUserId c) rs))
               = (guessedUserId c r = None)"
  proof (cases "guessedUserId c r")
    case None
    have "guessedUserId c x \<noteq> Some (a, r)" for x a
    proof
      assume eq: "guessedUserId c x = Some (a, r)"
      then have "x = r" using guessedUserId_snd [of c x "(a, r)"] by simp
      then show False using eq None by simp
    qed
    then show ?thesis using None
      by (auto simp add: list_ex_iff set_map_filter)
  next
    case (Some ids)
    then have "snd ids = r" by (rule guessedUserId_snd)
    then have "ids \<in> set (List.map_filter (guessedUserId c) rs) \<and> snd ids = r"
      using Some r by (auto simp add: set_map_filter)
    then have "list_ex (\<lambda>ids. snd ids = r) (List.map_filter (guessedUserId c) rs)"
      unfolding list_ex_iff by blast
    then show ?thesis using Some by simp
  qed
qed

lemma map_of_patchUpSelfDMs:
  assumes self: "map_of obj (getUserId c) = Some selfRoomIds"
  shows "map_of (fst (patchUpSelfDMs c obj)) v =
           (if \<exists>r \<in> set selfRoomIds. guessedUserId c r = Some (v, r)
            then Some (uniq ((case map_of obj v of None \<Rightarrow> [] | Some l \<Rightarrow> l)
                              @ filter (\<lambda>r. guessedUserId c r = Some (v, r)) selfRoomIds))
            else if v = getUserId c
            then Some (filter (\<lambda>r. guessedUserId c r = None) selfRoomIds)
            else map_of obj v)"
proof -
  let ?g = "List.map_filter (guessedUserId c) selfRoomIds"
  have mem: "v \<in> fst ` set ?g \<longleftrightarrow> (\<exists>r \<in> set selfRoomIds. guessedUserId c r = Some (v, r))"
  proof
    assume "v \<in> fst ` set ?g"
    then obtain ids r where "r \<in> set selfRoomIds" "guessedUserId c r = Some ids" "fst ids = v"
      by (auto simp add: set_map_filter)
    moreover from this have "ids = (v, r)"
      by (cases ids) (auto dest: guessedUserId_snd)
    ultimately show "\<exists>r \<in> set selfRoomIds. guessedUserId c r = Some (v, r)" by auto
  next
    assume "\<exists>r \<in> set selfRoomIds. guessedUserId c r = Some (v, r)"
    then show "v \<in> fst ` set ?g"
      by (force simp add: set_map_filter)
  qed
  show ?thesis
  proof (cases "?g = []")
    case True
    have none: "guessedUserId c r = None" if "r \<in> set selfRoomIds" for r
    proof (cases "guessedUserId c r")
      case (Some ids)
      then have "ids \<in> set ?g" using that by (auto simp add: set_map_filter)
      then show ?thesis using True by simp
    qed simp
    then have "filter (\<lambda>r. guessedUserId c r = None) selfRoomIds = selfRoomIds"
      by (simp add: filter_id_conv)
    moreover have "patchUpSelfDMs c obj = (obj, False)"
      using True self by (simp add: patchUpSelfDMs_def)
    ultimately show ?thesis using none self by auto
  next
    case False
    have notme: "\<not> (\<exists>r \<in> set selfRoomIds. guessedUserId c r = Some (getUserId c, r))"
      by (auto dest: guessedUserId_fst)
    have "fst (patchUpSelfDMs c obj)
            = fold reassign ?g
                (AList.update (getUserId c) (filter (\<lambda>r. guessedUserId c r = None) selfRoomIds) obj)"
      using False self by (simp add: patchUpSelfDMs_def Let_def kept_rooms)
    then show ?thesis
      using notme
      by (auto simp add: map_of_fold_reassign mem guessed_rooms_of update_conv')
  qed
qed

lemma getUserToRooms_rebuild:
  assumes "userToRooms this = None"
      and "map_of (mDirectEvent this) (getUserId c) = Some selfRoomIds"
      and "selfRoomIds \<noteq> []"
  shows "fst (getUserToRooms c this) = fst (patchUpSelfDMs c (mDirectEvent this))"
    and "userToRooms (snd (getUserToRooms c this)) = Some (fst (patchUpSelfDMs c (mDirectEvent this)))"
    and "mDirectEvent (snd (getUserToRooms c this)) = fst (patchUpSelfDMs c (mDirectEvent this))"
  using assms by (simp_all add: getUserToRooms_def Let_def split: prod.splits)

lemma getUserToRooms_cached:
  "userToRooms this = Some obj \<Longrightarrow> getUserToRooms c this = (obj, this)"
  by (simp add: getUserToRooms_def)

lemma getDMRoomsForUserId_cached:
  "userToRooms this = Some obj \<Longrightarrow>
     getDMRoomsForUserId c this u = (case map_of obj u of None \<Rightarrow> [] | Some roomIds \<Rightarrow> roomIds, this)"
  by (simp add: getDMRoomsForUserId_def getUserToRooms_cached)

text \<open>
  Claim C1. Let the index be unbuilt, let the own user \<open>U = getUserId c\<close> have the room
  \<open>R\<close> in its list of the Direct Map, and let the session's guess for \<open>R\<close> be a user
  \<open>V\<close> other than \<open>U\<close>. After one rebuild of the user index, the rooms of \<open>U\<close> do not
  contain \<open>R\<close>, the rooms of \<open>V\<close> contain \<open>R\<close>, and the list of \<open>V\<close> has no duplicates:
  it is the list \<open>V\<close> had before (the empty list if \<open>V\<close> had none) with the rooms that
  were reassigned to \<open>V\<close> appended in their order, de-duplicated by \<^verbatim>\<open>uniq\<close>.
\<close>

theorem self_chat_repair:
  assumes unbuilt: "userToRooms this = None"
      and self: "map_of (mDirectEvent this) (getUserId c) = Some selfRoomIds"
      and listed: "R \<in> set selfRoomIds"
      and room: "getRoom c R = Some room"
      and guess: "guessDMUserId room = Some V"
      and other: "V \<noteq> [] \<and> V \<noteq> getUserId c"
  shows "R \<notin> set (fst (getDMRoomsForUserId c (snd (getUserToRooms c this)) (getUserId c)))
       \<and> R \<in> set (fst (getDMRoomsForUserId c (snd (getUserToRooms c this)) V))
       \<and> distinct (fst (getDMRoomsForUserId c (snd (getUserToRooms c this)) V))
       \<and> fst (getDMRoomsForUserId c (snd (getUserToRooms c this)) V)
           = uniq ((case map_of (mDirectEvent this) V of None \<Rightarrow> [] | Some roomIds \<Rightarrow> roomIds)
                   @ filter (\<lambda>r. guessedUserId c r = Some (V, r)) selfRoomIds)"
proof -
  let ?patched = "fst (patchUpSelfDMs c (mDirectEvent this))"
  let ?this' = "snd (getUserToRooms c this)"
  have nonempty: "selfRoomIds \<noteq> []" using listed by auto
  have built: "userToRooms ?this' = Some ?patched"
    using unbuilt self nonempty by (rule getUserToRooms_rebuild)
  have query: "\<And>u. fst (getDMRoomsForUserId c ?this' u)
                  = (case map_of ?patched u of None \<Rightarrow> [] | Some roomIds \<Rightarrow> roomIds)"
    by (simp add: getDMRoomsForUserId_cached [OF built])
  have gR: "guessedUserId c R = Some (V, R)"
    using room guess other by (simp add: guessedUserId_def)
  have ex: "\<exists>r \<in> set selfRoomIds. guessedUserId c r = Some (V, r)"
    using listed gR by blast
  have notme: "\<not> (\<exists>r \<in> set selfRoomIds. guessedUserId c r = Some (getUserId c, r))"
    by (auto dest: guessedUserId_fst)
  have own: "fst (getDMRoomsForUserId c ?this' (getUserId c))
               = filter (\<lambda>r. guessedUserId c r = None) selfRoomIds"
    using notme by (simp add: query map_of_patchUpSelfDMs [OF self])
  have theirs: "fst (getDMRoomsForUserId c ?this' V)
                  = uniq ((case map_of (mDirectEvent this) V of None \<Rightarrow> [] | Some roomIds \<Rightarrow> roomIds)
                          @ filter (\<lambda>r. guessedUserId c r = Some (V, r)) selfRoomIds)"
    using ex by (simp add: query map_of_patchUpSelfDMs [OF self])
  have "R \<notin> set (fst (getDMRoomsForUserId c ?this' (getUserId c)))"
    using gR by (simp add: own)
  moreover have "R \<in> set (fst (getDMRoomsForUserId c ?this' V))"
    using gR listed by (simp add: theirs set_uniq)
  moreover have "distinct (fst (getDMRoomsForUserId c ?this' V))"
    by (simp add: theirs distinct_uniq)
  ultimately show ?thesis using theirs by blast
qed


theorem self_chat_repair_witness:
  "userToRooms (constructor misfiled_session) = None
   \<and> map_of (mDirectEvent (constructor misfiled_session)) (getUserId misfiled_session)
       = Some [''!r:hs'']
   \<and> getRoom misfiled_session ''!r:hs'' = Some (a_room ''!r:hs'' (Some ''@bob:hs'') ''join'' 2)
   \<and> ''!r:hs'' \<notin> set (fst (getDMRoomsForUserId misfiled_session
          (snd (getUserToRooms misfiled_session (constructor misfiled_session))) ''@me:hs''))
   \<and> fst (getDMRoomsForUserId misfiled_session
          (snd (getUserToRooms misfiled_session (constructor misfiled_session))) ''@bob:hs'')
       = [''!r:hs'']"
  using self_chat_repair
    [of "constructor misfiled_session" misfiled_session "[''!r:hs'']" "''!r:hs''"
        "a_room ''!r:hs'' (Some ''@bob:hs'') ''join'' 2" "''@bob:hs''"]
  by (simp add: misfiled_session_def constructor_def session_def direct_event_def a_room_def
      EventType_Direct_def guessedUserId_def uniq_def)

section \<open>The caches\<close>

lemma getUserToRooms_builds:
  "userToRooms (snd (getUserToRooms c this)) = Some (fst (getUserToRooms c this))"
  by (simp add: getUserToRooms_def Let_def split: option.splits prod.splits)

lemma getUserToRooms_roomToUser:
  "roomToUser (snd (getUserToRooms c this)) = roomToUser this"
  by (simp add: getUserToRooms_def Let_def split: option.splits prod.splits)

lemma getUserToRooms_stored:
  "userToRooms this = None \<Longrightarrow>
     mDirectEvent (snd (getUserToRooms c this)) = fst (getUserToRooms c this)"
  by (simp add: getUserToRooms_def Let_def split: option.splits prod.splits)

lemma getUserToRooms_untouched:
  assumes "userToRooms this = None"
      and "map_of (mDirectEvent this) (getUserId c) = None
           \<or> map_of (mDirectEvent this) (getUserId c) = Some []"
  shows "getUserToRooms c this = (mDirectEvent this, this\<lparr> userToRooms := Some (mDirectEvent this) \<rparr>)"
  using assms by (auto simp add: getUserToRooms_def Let_def)

lemma getUserToRooms_ignores_roomToUser:
  "getUserToRooms c (this\<lparr> roomToUser := x \<rparr>)
     = (fst (getUserToRooms c this), (snd (getUserToRooms c this))\<lparr> roomToUser := x \<rparr>)"
  by (simp add: getUserToRooms_def Let_def split: option.splits prod.splits)

lemma getUserToRooms_again:
  "getUserToRooms c' (snd (getUserToRooms c this))
     = (fst (getUserToRooms c this), snd (getUserToRooms c this))"
  by (simp add: getUserToRooms_cached [OF getUserToRooms_builds])

lemma getDMRoomsForUserId_fst:
  "fst (getDMRoomsForUserId c this u)
     = (case map_of (fst (getUserToRooms c this)) u of None \<Rightarrow> [] | Some roomIds \<Rightarrow> roomIds)"
  by (simp add: getDMRoomsForUserId_def split: prod.splits)

lemma getDMRoomsForUserId_snd:
  "snd (getDMRoomsForUserId c this u) = snd (getUserToRooms c this)"
  by (simp add: getDMRoomsForUserId_def split: prod.splits)

lemma populateRoomToUser_eq:
  "populateRoomToUser c this
     = (snd (getUserToRooms c this))\<lparr> roomToUser := Some (invertUserToRooms (fst (getUserToRooms c this))) \<rparr>"
  by (simp add: populateRoomToUser_def getUserToRooms_ignores_roomToUser)

lemma getUserIdForRoomId_snd:
  "snd (getUserIdForRoomId c this r)
     = (if roomToUser this = None then populateRoomToUser c this else this)"
  by (simp add: getUserIdForRoomId_def Let_def split: option.splits)

lemma cache_ok_getUserToRooms: "cache_ok this \<Longrightarrow> cache_ok (snd (getUserToRooms c this))"
proof (cases "userToRooms this")
  case None
  assume "cache_ok this"
  then have "roomToUser this = None" using None by (simp add: cache_ok_def)
  then show ?thesis
    using getUserToRooms_builds [of c this] getUserToRooms_roomToUser [of c this]
      getUserToRooms_stored [OF None, of c]
    by (simp add: cache_ok_def)
next
  case (Some obj)
  assume "cache_ok this"
  then show ?thesis using Some by (simp add: getUserToRooms_cached)
qed

lemma cache_ok_populateRoomToUser: "cache_ok this \<Longrightarrow> cache_ok (populateRoomToUser c this)"
proof -
  assume "cache_ok this"
  then have ok: "cache_ok (snd (getUserToRooms c this))" by (rule cache_ok_getUserToRooms)
  show ?thesis
    using ok getUserToRooms_builds [of c this]
    by (simp add: populateRoomToUser_eq cache_ok_def)
qed

lemma cache_ok_constructor: "cache_ok (constructor c)"
  by (simp add: constructor_def cache_ok_def Let_def)

lemma cache_ok_onAccountData: "cache_ok this \<Longrightarrow> cache_ok (onAccountData ev this)"
  by (simp add: onAccountData_def cache_ok_def)

lemma constructor_fields:
  "userToRooms (constructor c) = None"
  "roomToUser (constructor c) = None"
  "hasSentOutPatchDirectAccountDataPatch (constructor c) = False"
  "setAccountDataCalls (constructor c) = []"
  "warnings (constructor c) = []"
  "mDirectEvent (constructor c)
     = (case getAccountData c EventType_Direct of
          None \<Rightarrow> []
        | Some ev \<Rightarrow> (case getContent ev of None \<Rightarrow> [] | Some content \<Rightarrow> content))"
  by (simp_all add: constructor_def Let_def)

section \<open>The rooms of a user\<close>

lemma getUserToRooms_fst_unbuilt:
  "userToRooms this = None \<Longrightarrow>
     fst (getUserToRooms c this)
       = (if (case map_of (mDirectEvent this) (getUserId c) of None \<Rightarrow> False | Some l \<Rightarrow> l \<noteq> [])
          then fst (patchUpSelfDMs c (mDirectEvent this)) else mDirectEvent this)"
  by (simp add: getUserToRooms_def Let_def split: option.splits prod.splits)

text \<open>
  Claim C3. In every state an instance can be in, the rooms-for-user query returns, for
  every user identifier, the list that the Direct Map held by the instance after the
  query has for that user, as it is (so in its order), and the empty list when that map
  has no entry for the user. The map held after the query is the repaired one when the
  query rebuilt the index and the own user had rooms listed, and the map as it was
  otherwise.
\<close>

theorem rooms_for_user:
  assumes "cache_ok this"
  shows "fst (getDMRoomsForUserId c this u)
           = (case map_of (mDirectEvent (snd (getDMRoomsForUserId c this u))) u of
                None \<Rightarrow> [] | Some roomIds \<Rightarrow> roomIds)
       \<and> mDirectEvent (snd (getDMRoomsForUserId c this u))
           = (if userToRooms this = None
                 \<and> (case map_of (mDirectEvent this) (getUserId c) of
                       None \<Rightarrow> False | Some l \<Rightarrow> l \<noteq> [])
              then fst (patchUpSelfDMs c (mDirectEvent this))
              else mDirectEvent this)"
proof (cases "userToRooms this")
  case None
  have "mDirectEvent (snd (getUserToRooms c this)) = fst (getUserToRooms c this)"
    using None by (rule getUserToRooms_stored)
  then show ?thesis
    using None getUserToRooms_fst_unbuilt [OF None, of c]
    by (simp add: getDMRoomsForUserId_fst getDMRoomsForUserId_snd)
next
  case (Some obj)
  then have "obj = mDirectEvent this" using assms by (simp add: cache_ok_def)
  then show ?thesis
    using Some by (simp add: getDMRoomsForUserId_cached)
qed

theorem rooms_for_user_witness:
  "cache_ok (constructor shared_room_session)
   \<and> fst (getDMRoomsForUserId shared_room_session (constructor shared_room_session) ''@alice:hs'')
       = [''!r1:hs'', ''!r2:hs'']
   \<and> fst (getDMRoomsForUserId shared_room_session (constructor shared_room_session) ''@carol:hs'')
       = []"
  using rooms_for_user [where this = "constructor shared_room_session" and c = shared_room_session
        and u = "''@alice:hs''", OF cache_ok_constructor]
    rooms_for_user [where this = "constructor shared_room_session" and c = shared_room_session
        and u = "''@carol:hs''", OF cache_ok_constructor]
  by (simp add: cache_ok_def shared_room_session_def constructor_def session_def
      direct_event_def EventType_Direct_def getDMRoomsForUserId_def getUserToRooms_def)

section \<open>The user of a room\<close>

lemma map_of_fold_update_user:
  "map_of (fold (\<lambda>roomId acc'. AList.update roomId user acc') rooms acc) R
     = (if R \<in> set rooms then Some user else map_of acc R)"
  by (induction rooms arbitrary: acc) (auto simp add: update_conv')

lemma map_of_fold_users:
  "map_of (fold (\<lambda>user acc. fold (\<lambda>roomId acc'. AList.update roomId user acc') (rooms user) acc)
             users acc) R
     = (case filter (\<lambda>u. R \<in> set (rooms u)) users of
          [] \<Rightarrow> map_of acc R
        | u # us \<Rightarrow> Some (last (u # us)))"
proof (induction users arbitrary: acc)
  case Nil
  then show ?case by simp
next
  case (Cons k ks)
  show ?case
  proof (cases "filter (\<lambda>u. R \<in> set (rooms u)) ks")
    case Nil
    then show ?thesis
      by (simp add: Cons.IH map_of_fold_update_user)
  next
    case (Cons u us)
    then show ?thesis
      by (simp add: Cons.IH)
  qed
qed

lemma map_of_invertUserToRooms:
  "map_of (invertUserToRooms obj) R
     = (case filter (\<lambda>u. R \<in> set (case map_of obj u of None \<Rightarrow> [] | Some roomIds \<Rightarrow> roomIds))
               (map fst obj) of
          [] \<Rightarrow> None
        | u # us \<Rightarrow> Some (last (u # us)))"
  unfolding invertUserToRooms_def
  by (subst map_of_fold_users) (simp split: list.split)

lemma getUserIdForRoomId_fst:
  assumes "cache_ok this"
  shows "fst (getUserIdForRoomId c this R)
           = (case map_of (invertUserToRooms (fst (getUserToRooms c this))) R of
                None \<Rightarrow> (case getRoom c R of None \<Rightarrow> None | Some room \<Rightarrow> getDMInviter room)
              | Some userId \<Rightarrow> Some userId)"
proof (cases "roomToUser this")
  case None
  then show ?thesis
    by (simp add: getUserIdForRoomId_def populateRoomToUser_eq split: option.splits)
next
  case (Some index)
  then obtain obj where obj: "userToRooms this = Some obj" "index = invertUserToRooms obj"
    using assms by (auto simp add: cache_ok_def split: option.splits)
  then show ?thesis
    using Some by (simp add: getUserIdForRoomId_def getUserToRooms_cached split: option.splits)
qed

lemma user_for_room_last:
  assumes "cache_ok this"
      and "filter (\<lambda>u. R \<in> set (fst (getDMRoomsForUserId c this u)))
             (map fst (fst (getUserToRooms c this))) = u # us"
  shows "fst (getUserIdForRoomId c this R) = Some (last (u # us))"
  using assms(2)
  by (simp add: getUserIdForRoomId_fst [OF assms(1)] map_of_invertUserToRooms
      getDMRoomsForUserId_fst)

text \<open>
  Claim C4, as the code has it. In every state an instance can be in: when the room \<open>R\<close>
  is in the list that the rooms-for-user query returns for \<open>U\<close>, and in the list of no
  other user, the user-for-room query on \<open>R\<close> returns \<open>U\<close>. (A room that several users
  list goes to the last of them in the order of the keys, by \<open>user_for_room_last\<close>.)
\<close>

theorem user_for_room_inverts:
  assumes ok: "cache_ok this"
      and listed: "R \<in> set (fst (getDMRoomsForUserId c this U))"
      and only: "\<forall>U'. R \<in> set (fst (getDMRoomsForUserId c this U')) \<longrightarrow> U' = U"
  shows "fst (getUserIdForRoomId c this R) = Some U"
proof -
  let ?obj = "fst (getUserToRooms c this)"
  let ?us = "filter (\<lambda>u. R \<in> set (fst (getDMRoomsForUserId c this u))) (map fst ?obj)"
  have "map_of ?obj U \<noteq> None"
  proof
    assume "map_of ?obj U = None"
    then show False using listed by (simp add: getDMRoomsForUserId_fst)
  qed
  then have "U \<in> set (map fst ?obj)"
    by (simp add: map_of_eq_None_iff)
  then have "U \<in> set ?us" using listed by simp
  then obtain u us where us: "?us = u # us"
    by (cases ?us) auto
  have "last (u # us) \<in> set ?us"
    unfolding us by (rule last_in_set) simp
  then have "last (u # us) = U"
    using only by simp
  then show ?thesis
    using user_for_room_last [OF ok us] by simp
qed

theorem user_for_room_inverts_witness:
  "cache_ok (constructor shared_room_session)
   \<and> ''!r1:hs'' \<in> set (fst (getDMRoomsForUserId shared_room_session
                              (constructor shared_room_session) ''@alice:hs''))
   \<and> fst (getUserIdForRoomId shared_room_session (constructor shared_room_session) ''!r1:hs'')
       = Some ''@alice:hs''"
proof -
  let ?inst = "constructor shared_room_session"
  have listed: "''!r1:hs'' \<in> set (fst (getDMRoomsForUserId shared_room_session ?inst ''@alice:hs''))"
    by (simp add: shared_room_session_def constructor_def session_def direct_event_def
        EventType_Direct_def getDMRoomsForUserId_def getUserToRooms_def)
  have only: "\<forall>U'. ''!r1:hs'' \<in> set (fst (getDMRoomsForUserId shared_room_session ?inst U'))
                  \<longrightarrow> U' = ''@alice:hs''"
    by (simp add: shared_room_session_def constructor_def session_def direct_event_def
        EventType_Direct_def getDMRoomsForUserId_def getUserToRooms_def)
  show ?thesis
    using user_for_room_inverts [OF cache_ok_constructor listed only] listed
    by (simp add: cache_ok_constructor)
qed

theorem user_for_room_shared_room_counterexample:
  "map_of (mDirectEvent (constructor shared_room_session)) (getUserId shared_room_session) = None
   \<and> ''!r2:hs'' \<in> set (fst (getDMRoomsForUserId shared_room_session
                              (constructor shared_room_session) ''@alice:hs''))
   \<and> fst (getUserIdForRoomId shared_room_session (constructor shared_room_session) ''!r2:hs'')
       = Some ''@bob:hs''
   \<and> fst (getUserIdForRoomId shared_room_session (constructor shared_room_session) ''!r2:hs'')
       \<noteq> Some ''@alice:hs''"
  by (simp add: shared_room_session_def constructor_def session_def direct_event_def
      EventType_Direct_def getDMRoomsForUserId_def getUserToRooms_def getUserIdForRoomId_def
      populateRoomToUser_def invertUserToRooms_def)

section \<open>The room that a list of identifiers shares\<close>

lemma commonRoomsLoop_cached:
  assumes "userToRooms this = Some obj"
  shows "commonRoomsLoop c ids commonRooms this
           = (filter (\<lambda>r. \<forall>i \<in> set ids.
                        r \<in> set (case map_of obj i of None \<Rightarrow> [] | Some roomIds \<Rightarrow> roomIds))
                commonRooms, this)"
proof (induction ids arbitrary: commonRooms)
  case Nil
  then show ?case by simp
next
  case (Cons i ids)
  show ?case
    by (simp add: getDMRoomsForUserId_cached [OF assms] Cons.IH conj_commute)
qed

lemma first_joined:
  "(case filter (\<lambda>r. case r of None \<Rightarrow> False | Some room \<Rightarrow> getMyMembership room = ''join'')
            (map (getRoom peg) rs) of
      [] \<Rightarrow> None | r # _ \<Rightarrow> r)
     = (case filter (\<lambda>r. case getRoom peg r of
                           None \<Rightarrow> False | Some room \<Rightarrow> getMyMembership room = ''join'') rs of
          [] \<Rightarrow> None | r # _ \<Rightarrow> getRoom peg r)"
  by (induction rs) (auto split: option.splits)

lemma getDMRoomForIdentifiers_eq:
  "getDMRoomForIdentifiers c peg this (i # ids)
     = (case filter (\<lambda>r. case getRoom peg r of
                           None \<Rightarrow> False | Some room \<Rightarrow> getMyMembership room = ''join'')
              (filter (\<lambda>r. \<forall>j \<in> set ids. r \<in> set (fst (getDMRoomsForUserId c this j)))
                 (fst (getDMRoomsForUserId c this i))) of
          [] \<Rightarrow> None | r # _ \<Rightarrow> getRoom peg r,
        snd (getUserToRooms c this))"
proof -
  let ?obj = "fst (getUserToRooms c this)"
  let ?built = "snd (getUserToRooms c this)"
  have first: "getDMRoomsForUserId c this i
                 = (case map_of ?obj i of None \<Rightarrow> [] | Some roomIds \<Rightarrow> roomIds, ?built)"
    by (simp add: getDMRoomsForUserId_def split: prod.splits)
  have loop: "commonRoomsLoop c ids commonRooms ?built
                = (filter (\<lambda>r. \<forall>j \<in> set ids. r \<in> set (fst (getDMRoomsForUserId c this j)))
                     commonRooms, ?built)" for commonRooms
    by (simp add: commonRoomsLoop_cached [OF getUserToRooms_builds] getDMRoomsForUserId_fst)
  show ?thesis
    unfolding getDMRoomForIdentifiers_def
    by (simp add: first loop first_joined getDMRoomsForUserId_fst)
qed

text \<open>
  Claim C6. For every non-empty list of identifiers, the common-room query returns the
  room object of the first room, in the order of the first identifier's list, that is in
  the rooms-for-user list of every identifier and whose room object in the peg's session
  exists with the own membership \<^verbatim>\<open>join\<close>; it returns no room when there is none, so
  when the intersection is empty or no candidate is joined.
\<close>

theorem common_room_for_identifiers:
  assumes "ids \<noteq> []"
  shows "fst (getDMRoomForIdentifiers c peg this ids)
           = (case filter (\<lambda>r. case getRoom peg r of
                                 None \<Rightarrow> False | Some room \<Rightarrow> getMyMembership room = ''join'')
                    (filter (\<lambda>r. \<forall>i \<in> set ids. r \<in> set (fst (getDMRoomsForUserId c this i)))
                       (fst (getDMRoomsForUserId c this (hd ids)))) of
                [] \<Rightarrow> None
              | r # _ \<Rightarrow> getRoom peg r)"
proof -
  from assms obtain i rest where ids: "ids = i # rest"
    by (cases ids) auto
  have "filter (\<lambda>r. \<forall>j \<in> set (i # rest). r \<in> set (fst (getDMRoomsForUserId c this j)))
          (fst (getDMRoomsForUserId c this i))
        = filter (\<lambda>r. \<forall>j \<in> set rest. r \<in> set (fst (getDMRoomsForUserId c this j)))
            (fst (getDMRoomsForUserId c this i))"
    by (rule filter_cong) auto
  then show ?thesis
    unfolding ids by (simp only: getDMRoomForIdentifiers_eq fst_conv list.sel)
qed

theorem common_room_for_identifiers_witness:
  "fst (getDMRoomForIdentifiers shared_room_session shared_room_session
          (constructor shared_room_session) [''@alice:hs'', ''@bob:hs''])
     = Some (a_room ''!r2:hs'' (Some ''@alice:hs'') ''join'' 2)
   \<and> fst (getDMRoomForIdentifiers shared_room_session shared_room_session
          (constructor shared_room_session) [''@bob:hs'', ''@carol:hs'']) = None"
  using common_room_for_identifiers
    [of "[''@alice:hs'', ''@bob:hs'']" shared_room_session shared_room_session
        "constructor shared_room_session"]
    common_room_for_identifiers
    [of "[''@bob:hs'', ''@carol:hs'']" shared_room_session shared_room_session
        "constructor shared_room_session"]
  by (simp add: shared_room_session_def constructor_def session_def direct_event_def a_room_def
      EventType_Direct_def getDMRoomsForUserId_def getUserToRooms_def)

section \<open>The rooms with one other member\<close>

lemma getUserIdForRoomId_indexed:
  assumes "roomToUser this = Some index"
  shows "getUserIdForRoomId c this r
           = (case map_of index r of
                None \<Rightarrow> (case getRoom c r of None \<Rightarrow> None | Some room \<Rightarrow> getDMInviter room)
              | Some userId \<Rightarrow> Some userId, this)"
  using assms by (simp add: getUserIdForRoomId_def split: option.splits)

lemma withIndividuals_indexed:
  assumes "roomToUser this = Some index"
  shows "withIndividuals c rs this
           = (map (\<lambda>r. (fst (getUserIdForRoomId c this r), getRoom c r)) rs, this)"
  by (induction rs) (simp_all add: getUserIdForRoomId_indexed [OF assms])

lemma map_of_assignRoom:
  "map_of (assignRoom p acc) u
     = (if fst p = Some u \<and> snd p \<noteq> None then snd p else map_of acc u)"
  by (cases p) (auto simp add: assignRoom_def update_conv' split: option.splits)

lemma map_of_fold_assignRoom:
  "map_of (fold assignRoom ps acc) u
     = (case filter (\<lambda>p. fst p = Some u \<and> snd p \<noteq> None) ps of
          [] \<Rightarrow> map_of acc u
        | q # qs \<Rightarrow> snd (last (q # qs)))"
proof (induction ps arbitrary: acc)
  case Nil
  then show ?case by simp
next
  case (Cons p ps)
  have step: "map_of (fold assignRoom (p # ps) acc) u
                = (case filter (\<lambda>p. fst p = Some u \<and> snd p \<noteq> None) ps of
                     [] \<Rightarrow> map_of (assignRoom p acc) u
                   | q # qs \<Rightarrow> snd (last (q # qs)))"
    by (simp only: fold_simps Cons.IH)
  show ?case
  proof (cases "filter (\<lambda>p. fst p = Some u \<and> snd p \<noteq> None) ps")
    case Nil
    then show ?thesis
      unfolding step by (auto simp add: map_of_assignRoom)
  next
    case (Cons q qs)
    then show ?thesis
      unfolding step by simp
  qed
qed

lemma isIndividual_iff:
  "isIndividual (userId, room)
     \<longleftrightarrow> (\<exists>u rm. userId = Some u \<and> room = Some rm \<and> u \<noteq> []
              \<and> getInvitedAndJoinedMemberCount rm = 2)"
  by (auto simp add: isIndividual_def split: option.splits)

lemma last_filter_in:
  "filter P xs = y # ys \<Longrightarrow> P (last (y # ys)) \<and> last (y # ys) \<in> set xs"
proof -
  assume eq: "filter P xs = y # ys"
  have "last (y # ys) \<in> set (filter P xs)"
    unfolding eq by (rule last_in_set) simp
  then show ?thesis by simp
qed

lemma unique_rooms_lookup:
  assumes index: "roomToUser this = Some index"
  shows "map_of (fst (getUniqueRoomsWithIndividuals c this)) u
           = (case filter (\<lambda>r. map_of index r = Some u \<and> u \<noteq> []
                                 \<and> (case getRoom c r of
                                       None \<Rightarrow> False
                                     | Some room \<Rightarrow> getInvitedAndJoinedMemberCount room = 2))
                    (map fst index) of
                [] \<Rightarrow> None
              | r # rs \<Rightarrow> getRoom c (last (r # rs)))"
proof -
  let ?g = "\<lambda>r. (fst (getUserIdForRoomId c this r), getRoom c r)"
  let ?keys = "map fst index"
  let ?P = "\<lambda>r. map_of index r = Some u \<and> u \<noteq> []
                 \<and> (case getRoom c r of
                       None \<Rightarrow> False
                     | Some room \<Rightarrow> getInvitedAndJoinedMemberCount room = 2)"
  have keyed: "fst (getUserIdForRoomId c this r) = map_of index r" if "r \<in> set ?keys" for r
  proof -
    from that have "map_of index r \<noteq> None" by (simp add: map_of_eq_None_iff)
    then show ?thesis
      by (auto simp add: getUserIdForRoomId_indexed [OF index])
  qed
  have result: "fst (getUniqueRoomsWithIndividuals c this)
                  = fold assignRoom (filter isIndividual (map ?g ?keys)) []"
    using index
    by (simp add: getUniqueRoomsWithIndividuals_def withIndividuals_indexed [OF index])
  have "filter (\<lambda>p. fst p = Some u \<and> snd p \<noteq> None) (filter isIndividual (map ?g ?keys))
          = map ?g (filter (\<lambda>r. isIndividual (?g r) \<and> fst (?g r) = Some u \<and> snd (?g r) \<noteq> None) ?keys)"
    by (simp add: filter_map comp_def conj_commute conj_left_commute)
  also have "filter (\<lambda>r. isIndividual (?g r) \<and> fst (?g r) = Some u \<and> snd (?g r) \<noteq> None) ?keys
               = filter ?P ?keys"
  proof (rule filter_cong [OF refl])
    fix r assume "r \<in> set ?keys"
    then show "(isIndividual (?g r) \<and> fst (?g r) = Some u \<and> snd (?g r) \<noteq> None) = ?P r"
      by (auto simp add: keyed isIndividual_iff split: option.splits)
  qed
  finally have kept:
    "filter (\<lambda>p. fst p = Some u \<and> snd p \<noteq> None) (filter isIndividual (map ?g ?keys))
       = map ?g (filter ?P ?keys)" .
  have lookup: "map_of (fst (getUniqueRoomsWithIndividuals c this)) u
                  = (case map ?g (filter ?P ?keys) of
                       [] \<Rightarrow> map_of [] u
                     | q # qs \<Rightarrow> snd (last (q # qs)))"
    by (simp only: result map_of_fold_assignRoom kept)
  show ?thesis
  proof (cases "filter ?P ?keys")
    case Nil
    then show ?thesis
      unfolding lookup by simp
  next
    case (Cons r rs)
    have "last (map ?g (r # rs)) = ?g (last (r # rs))"
      by (rule last_map) simp
    then show ?thesis
      unfolding lookup Cons by simp
  qed
qed

lemma unique_rooms_state:
  "snd (getUniqueRoomsWithIndividuals c this) = this"
  by (cases "roomToUser this")
    (simp_all add: getUniqueRoomsWithIndividuals_def withIndividuals_indexed)

text \<open>
  Claim C7, as the code has it. When the room index has never been built the query returns
  the empty mapping and leaves the instance as it is. When it is built, the query leaves
  the instance as it is, and the mapping it returns has under a user identifier \<open>u\<close>
  the room object of the last room, in the order of the keys of the room index, that the
  index maps to \<open>u\<close>, with \<open>u\<close> not the empty string, and whose room object exists in the
  session and has exactly two joined or invited members; it has no entry for \<open>u\<close> when
  there is no such room. So every room in the mapping has exactly two such members, and of
  several such rooms of one user the mapping has the last only.
\<close>

theorem unique_rooms_with_individuals:
  "(case roomToUser this of
      None \<Rightarrow> getUniqueRoomsWithIndividuals c this = ([], this)
    | Some index \<Rightarrow>
        snd (getUniqueRoomsWithIndividuals c this) = this
        \<and> map_of (fst (getUniqueRoomsWithIndividuals c this)) u
            = (case filter (\<lambda>r. map_of index r = Some u \<and> u \<noteq> []
                                  \<and> (case getRoom c r of
                                        None \<Rightarrow> False
                                      | Some room \<Rightarrow> getInvitedAndJoinedMemberCount room = 2))
                     (map fst index) of
                 [] \<Rightarrow> None
               | r # rs \<Rightarrow> getRoom c (last (r # rs)))
        \<and> (case map_of (fst (getUniqueRoomsWithIndividuals c this)) u of
              None \<Rightarrow> True
            | Some room \<Rightarrow> getInvitedAndJoinedMemberCount room = 2))"
proof (cases "roomToUser this")
  case None
  then show ?thesis
    by (simp add: getUniqueRoomsWithIndividuals_def)
next
  case (Some index)
  let ?P = "\<lambda>r. map_of index r = Some u \<and> u \<noteq> []
                 \<and> (case getRoom c r of
                       None \<Rightarrow> False
                     | Some room \<Rightarrow> getInvitedAndJoinedMemberCount room = 2)"
  have two: "(case map_of (fst (getUniqueRoomsWithIndividuals c this)) u of
                None \<Rightarrow> True
              | Some room \<Rightarrow> getInvitedAndJoinedMemberCount room = 2)"
  proof (cases "filter ?P (map fst index)")
    case Nil
    then show ?thesis
      by (simp add: unique_rooms_lookup [OF Some])
  next
    case (Cons r rs)
    have eq: "map_of (fst (getUniqueRoomsWithIndividuals c this)) u = getRoom c (last (r # rs))"
      by (simp only: unique_rooms_lookup [OF Some] Cons list.case)
    have "?P (last (r # rs))"
      using Cons last_filter_in [of ?P "map fst index" r rs] by blast
    then have "case getRoom c (last (r # rs)) of
                 None \<Rightarrow> False
               | Some room \<Rightarrow> getInvitedAndJoinedMemberCount room = 2"
      by blast
    then show ?thesis
      unfolding eq by (cases "getRoom c (last (r # rs))") (simp_all del: last.simps)
  qed
  show ?thesis
    using Some two by (simp add: unique_rooms_state unique_rooms_lookup [OF Some])
qed

theorem unique_rooms_with_individuals_witness:
  "getUniqueRoomsWithIndividuals group_session (constructor group_session)
     = ([], constructor group_session)
   \<and> roomToUser (populateRoomToUser group_session (constructor group_session))
       = Some [(''!r1:hs'', ''@alice:hs''), (''!r2:hs'', ''@alice:hs''), (''!g:hs'', ''@bob:hs'')]
   \<and> map_of (fst (getUniqueRoomsWithIndividuals group_session
                 (populateRoomToUser group_session (constructor group_session)))) ''@alice:hs''
       = Some (a_room ''!r2:hs'' (Some ''@alice:hs'') ''join'' 2)
   \<and> map_of (fst (getUniqueRoomsWithIndividuals group_session
                 (populateRoomToUser group_session (constructor group_session)))) ''@bob:hs''
       = None"
proof -
  let ?started = "populateRoomToUser group_session (constructor group_session)"
  have index: "roomToUser ?started
         = Some [(''!r1:hs'', ''@alice:hs''), (''!r2:hs'', ''@alice:hs''), (''!g:hs'', ''@bob:hs'')]"
    by (simp add: group_session_def constructor_def session_def direct_event_def
        EventType_Direct_def getUserToRooms_def populateRoomToUser_def invertUserToRooms_def)
  have rooms:
    "getRoom group_session ''!r1:hs'' = Some (a_room ''!r1:hs'' (Some ''@alice:hs'') ''join'' 2)"
    "getRoom group_session ''!r2:hs'' = Some (a_room ''!r2:hs'' (Some ''@alice:hs'') ''join'' 2)"
    "getRoom group_session ''!g:hs'' = Some (a_room ''!g:hs'' (Some ''@bob:hs'') ''join'' 3)"
    by (simp_all add: group_session_def session_def a_room_def)
  have counts:
    "getInvitedAndJoinedMemberCount (a_room ''!r1:hs'' (Some ''@alice:hs'') ''join'' 2) = 2"
    "getInvitedAndJoinedMemberCount (a_room ''!r2:hs'' (Some ''@alice:hs'') ''join'' 2) = 2"
    "getInvitedAndJoinedMemberCount (a_room ''!g:hs'' (Some ''@bob:hs'') ''join'' 3) = 3"
    by (simp_all add: a_room_def)
  show ?thesis
    using unique_rooms_with_individuals
        [where this = "constructor group_session" and c = group_session and u = "''@alice:hs''"]
      unique_rooms_with_individuals
        [where this = ?started and c = group_session and u = "''@alice:hs''"]
      unique_rooms_with_individuals
        [where this = ?started and c = group_session and u = "''@bob:hs''"]
    by (simp add: index rooms counts constructor_fields)
qed

theorem unique_rooms_one_per_user_counterexample:
  "map_of [(''!r1:hs'', ''@alice:hs''), (''!r2:hs'', ''@alice:hs''), (''!g:hs'', ''@bob:hs'')]
      ''!r1:hs'' = Some ''@alice:hs''
   \<and> roomToUser (populateRoomToUser group_session (constructor group_session))
       = Some [(''!r1:hs'', ''@alice:hs''), (''!r2:hs'', ''@alice:hs''), (''!g:hs'', ''@bob:hs'')]
   \<and> getRoom group_session ''!r1:hs'' = Some (a_room ''!r1:hs'' (Some ''@alice:hs'') ''join'' 2)
   \<and> getInvitedAndJoinedMemberCount (a_room ''!r1:hs'' (Some ''@alice:hs'') ''join'' 2) = 2
   \<and> fst (getUniqueRoomsWithIndividuals group_session
            (populateRoomToUser group_session (constructor group_session)))
       = [(''@alice:hs'', a_room ''!r2:hs'' (Some ''@alice:hs'') ''join'' 2)]
   \<and> a_room ''!r1:hs'' (Some ''@alice:hs'') ''join'' 2
       \<notin> snd ` set (fst (getUniqueRoomsWithIndividuals group_session
                           (populateRoomToUser group_session (constructor group_session))))"
  by (simp add: group_session_def constructor_def session_def direct_event_def a_room_def
      EventType_Direct_def getUserToRooms_def populateRoomToUser_def invertUserToRooms_def
      getUniqueRoomsWithIndividuals_def getUserIdForRoomId_def isIndividual_def assignRoom_def)

section \<open>Self-chats that are self-chats\<close>

lemma patchUpSelfDMs_nothing:
  assumes "map_of obj (getUserId c) = Some selfRoomIds"
      and "\<forall>r \<in> set selfRoomIds. guessedUserId c r = None"
  shows "patchUpSelfDMs c obj = (obj, False)"
proof -
  have "set (List.map_filter (guessedUserId c) selfRoomIds) = {}"
    using assms(2) by (auto simp add: set_map_filter)
  then have "List.map_filter (guessedUserId c) selfRoomIds = []"
    by simp
  then show ?thesis
    using assms(1) by (simp add: patchUpSelfDMs_def)
qed

lemma rebuild_without_reassignment:
  assumes "userToRooms this = None"
      and "map_of (mDirectEvent this) (getUserId c) = Some selfRoomIds"
      and "selfRoomIds \<noteq> []"
      and "\<forall>r \<in> set selfRoomIds. guessedUserId c r = None"
  shows "mDirectEvent (snd (getUserToRooms c this)) = mDirectEvent this"
    and "setAccountDataCalls (snd (getUserToRooms c this)) = setAccountDataCalls this"
    and "hasSentOutPatchDirectAccountDataPatch (snd (getUserToRooms c this))
           = hasSentOutPatchDirectAccountDataPatch this"
    and "warnings (snd (getUserToRooms c this)) = warnings this @ [warning_text]"
  using assms(1-3) patchUpSelfDMs_nothing [OF assms(2) assms(4)]
  by (simp_all add: getUserToRooms_def Let_def)

text \<open>
  Claim C8, evaluated on an instance whose Direct Map lists one room under the own user,
  a room for which the session's guess is the own user. The repair finds nothing to
  reassign: the rebuild leaves the map as it was and attempts no write-back. It does give
  one message to \<^verbatim>\<open>logger.warn\<close>, the one that says that invalid account data was
  detected and is being patched up.
\<close>

theorem benign_self_entry_is_warned_about:
  "snd (patchUpSelfDMs notes_session (mDirectEvent (constructor notes_session))) = False
   \<and> mDirectEvent (snd (getUserToRooms notes_session (constructor notes_session)))
       = mDirectEvent (constructor notes_session)
   \<and> setAccountDataCalls (snd (getUserToRooms notes_session (constructor notes_session))) = []
   \<and> warnings (snd (getUserToRooms notes_session (constructor notes_session)))
       = [''Invalid m.direct account data detected (self-chats that shouldn't be), patching it up.'']"
  by (simp add: notes_session_def constructor_def session_def direct_event_def a_room_def
      EventType_Direct_def getUserToRooms_def patchUpSelfDMs_def guessedUserId_def
      List.map_filter_simps warning_text_def)

section \<open>The rooms that the Direct Map names\<close>

lemma fold_fold_insert:
  "fold (\<lambda>roomIds prevRoomIds. fold insert roomIds prevRoomIds) vs acc
     = acc \<union> (\<Union>v \<in> set vs. set v)"
proof (induction vs arbitrary: acc)
  case Nil
  then show ?case by simp
next
  case (Cons v vs)
  have "fold insert v acc = set v \<union> acc"
    by (rule union_set_fold [symmetric])
  then show ?case
    by (auto simp add: Cons.IH)
qed

lemma getRoomIds_eq: "getRoomIds this = (\<Union>p \<in> set (mDirectEvent this). set (snd p))"
  by (simp add: getRoomIds_def fold_fold_insert)

lemma rooms_update_subset:
  "(\<Union>p \<in> set (AList.update k v al). set (snd p)) \<subseteq> (\<Union>p \<in> set al. set (snd p)) \<union> set v"
  by (induction al) auto

lemma rooms_update_holds_new:
  "set v \<subseteq> (\<Union>p \<in> set (AList.update k v al). set (snd p))"
  by (induction al) auto

lemma rooms_update_keeps_rest:
  "(\<Union>p \<in> set al. set (snd p))
     \<subseteq> (\<Union>p \<in> set (AList.update k v al). set (snd p))
        \<union> (case map_of al k of None \<Rightarrow> {} | Some old \<Rightarrow> set old)"
  by (induction al) auto

lemma rooms_entry_subset:
  "map_of al k = Some old \<Longrightarrow> set old \<subseteq> (\<Union>p \<in> set al. set (snd p))"
  by (auto dest!: map_of_SomeD)

lemma rooms_reassign:
  "(\<Union>p \<in> set (reassign ids obj). set (snd p)) = (\<Union>p \<in> set obj. set (snd p)) \<union> {snd ids}"
proof (cases "map_of obj (fst ids)")
  case None
  have "(\<Union>p \<in> set (AList.update (fst ids) [snd ids] obj). set (snd p))
          \<subseteq> (\<Union>p \<in> set obj. set (snd p)) \<union> set [snd ids]"
    by (rule rooms_update_subset)
  moreover have "set [snd ids] \<subseteq> (\<Union>p \<in> set (AList.update (fst ids) [snd ids] obj). set (snd p))"
    by (rule rooms_update_holds_new)
  moreover have "(\<Union>p \<in> set obj. set (snd p))
          \<subseteq> (\<Union>p \<in> set (AList.update (fst ids) [snd ids] obj). set (snd p))"
    using rooms_update_keeps_rest [of obj "fst ids" "[snd ids]"] None by simp
  ultimately show ?thesis
    using None by (simp add: reassign_def) blast
next
  case (Some old)
  let ?new = "uniq (old @ [snd ids])"
  have new: "set ?new = set old \<union> {snd ids}"
    by (simp add: set_uniq)
  have "(\<Union>p \<in> set (AList.update (fst ids) ?new obj). set (snd p))
          \<subseteq> (\<Union>p \<in> set obj. set (snd p)) \<union> set ?new"
    by (rule rooms_update_subset)
  moreover have "set ?new \<subseteq> (\<Union>p \<in> set (AList.update (fst ids) ?new obj). set (snd p))"
    by (rule rooms_update_holds_new)
  moreover have "(\<Union>p \<in> set obj. set (snd p))
          \<subseteq> (\<Union>p \<in> set (AList.update (fst ids) ?new obj). set (snd p)) \<union> set old"
    using rooms_update_keeps_rest [of obj "fst ids" ?new] Some by simp
  moreover have "set old \<subseteq> (\<Union>p \<in> set obj. set (snd p))"
    using Some by (rule rooms_entry_subset)
  ultimately show ?thesis
    using Some new by (simp add: reassign_def) blast
qed

lemma rooms_fold_reassign:
  "(\<Union>p \<in> set (fold reassign g obj). set (snd p)) = (\<Union>p \<in> set obj. set (snd p)) \<union> snd ` set g"
  by (induction g arbitrary: obj) (auto simp add: rooms_reassign)

lemma moved_rooms:
  "snd ` set (List.map_filter (guessedUserId c) rs) = {r \<in> set rs. guessedUserId c r \<noteq> None}"
proof (rule set_eqI)
  fix r
  show "r \<in> snd ` set (List.map_filter (guessedUserId c) rs)
          \<longleftrightarrow> r \<in> {r \<in> set rs. guessedUserId c r \<noteq> None}"
  proof
    assume "r \<in> snd ` set (List.map_filter (guessedUserId c) rs)"
    then obtain ids where ids: "ids \<in> set (List.map_filter (guessedUserId c) rs)" "snd ids = r"
      by blast
    from ids(1) obtain x where x: "x \<in> set rs" "guessedUserId c x = Some ids"
      unfolding set_map_filter by blast
    from x(2) have "snd ids = x" by (rule guessedUserId_snd)
    then have "x = r" using ids(2) by simp
    then show "r \<in> {r \<in> set rs. guessedUserId c r \<noteq> None}"
      using x by simp
  next
    assume "r \<in> {r \<in> set rs. guessedUserId c r \<noteq> None}"
    then obtain ids where r: "r \<in> set rs" "guessedUserId c r = Some ids"
      by (cases "guessedUserId c r") simp_all
    from r(2) have "snd ids = r" by (rule guessedUserId_snd)
    moreover have "ids \<in> set (List.map_filter (guessedUserId c) rs)"
      unfolding set_map_filter using r by blast
    ultimately show "r \<in> snd ` set (List.map_filter (guessedUserId c) rs)"
      by (metis imageI)
  qed
qed

lemma rooms_patchUpSelfDMs:
  "(\<Union>p \<in> set (fst (patchUpSelfDMs c obj)). set (snd p)) = (\<Union>p \<in> set obj. set (snd p))"
proof (cases "map_of obj (getUserId c)")
  case None
  then show ?thesis by (simp add: patchUpSelfDMs_def)
next
  case (Some selfRoomIds)
  let ?g = "List.map_filter (guessedUserId c) selfRoomIds"
  let ?kept = "filter (\<lambda>r. guessedUserId c r = None) selfRoomIds"
  show ?thesis
  proof (cases "?g = []")
    case True
    then show ?thesis using Some by (simp add: patchUpSelfDMs_def)
  next
    case False
    define A where "A = (\<Union>p \<in> set obj. set (snd p))"
    define B where "B = (\<Union>p \<in> set (AList.update (getUserId c) ?kept obj). set (snd p))"
    define K where "K = set ?kept"
    define S where "S = set selfRoomIds"
    define G where "G = snd ` set ?g"
    have patched: "fst (patchUpSelfDMs c obj) = fold reassign ?g (AList.update (getUserId c) ?kept obj)"
      using False Some by (simp add: patchUpSelfDMs_def Let_def kept_rooms)
    have "S = {r \<in> S. guessedUserId c r = None} \<union> {r \<in> S. guessedUserId c r \<noteq> None}"
      by blast
    then have split: "S = K \<union> G"
      unfolding S_def K_def G_def by (simp only: moved_rooms set_filter)
    have 1: "B \<subseteq> A \<union> K"
      unfolding A_def B_def K_def by (rule rooms_update_subset)
    have 2: "K \<subseteq> B"
      unfolding B_def K_def by (rule rooms_update_holds_new)
    have 3: "A \<subseteq> B \<union> S"
      unfolding A_def B_def S_def
      using rooms_update_keeps_rest [of obj "getUserId c" ?kept] Some by simp
    have 4: "S \<subseteq> A"
      unfolding A_def S_def using Some by (rule rooms_entry_subset)
    have "B \<union> G = A"
      using 1 2 3 4 split by blast
    then show ?thesis
      unfolding patched rooms_fold_reassign A_def B_def G_def .
  qed
qed

text \<open>
  Claim C10. For every Direct Map and every session, the set that the all-room-identifiers
  query returns is the same before and after the repair pass, and so before and after a
  rebuild of the user index: the repair moves rooms between the lists of users, it neither
  adds a room identifier nor drops one.
\<close>

theorem repair_preserves_room_ids:
  "getRoomIds (this\<lparr> mDirectEvent := fst (patchUpSelfDMs c (mDirectEvent this)) \<rparr>)
     = getRoomIds this
   \<and> getRoomIds (snd (getUserToRooms c this)) = getRoomIds this"
proof -
  have "mDirectEvent (snd (getUserToRooms c this)) = mDirectEvent this
        \<or> mDirectEvent (snd (getUserToRooms c this)) = fst (patchUpSelfDMs c (mDirectEvent this))"
    by (simp add: getUserToRooms_def Let_def split: option.splits prod.splits)
  then have "getRoomIds (snd (getUserToRooms c this)) = getRoomIds this"
  proof (elim disjE)
    assume same: "mDirectEvent (snd (getUserToRooms c this)) = mDirectEvent this"
    show ?thesis
      unfolding getRoomIds_eq same by (rule refl)
  next
    assume patched: "mDirectEvent (snd (getUserToRooms c this))
                       = fst (patchUpSelfDMs c (mDirectEvent this))"
    show ?thesis
      unfolding getRoomIds_eq patched by (rule rooms_patchUpSelfDMs)
  qed
  then show ?thesis
    by (simp add: getRoomIds_eq rooms_patchUpSelfDMs)
qed

theorem repair_preserves_room_ids_witness:
  "getRoomIds (constructor misfiled_session) = {''!r:hs''}
   \<and> mDirectEvent (snd (getUserToRooms misfiled_session (constructor misfiled_session)))
       = [(''@me:hs'', []), (''@bob:hs'', [''!r:hs''])]
   \<and> getRoomIds (snd (getUserToRooms misfiled_session (constructor misfiled_session)))
       = {''!r:hs''}"
proof -
  have before: "getRoomIds (constructor misfiled_session) = {''!r:hs''}"
    by (simp add: misfiled_session_def constructor_def session_def direct_event_def
        EventType_Direct_def getRoomIds_def)
  have after: "mDirectEvent (snd (getUserToRooms misfiled_session (constructor misfiled_session)))
                 = [(''@me:hs'', []), (''@bob:hs'', [''!r:hs''])]"
    by (simp add: misfiled_session_def constructor_def session_def direct_event_def a_room_def
        EventType_Direct_def getUserToRooms_def patchUpSelfDMs_def guessedUserId_def
        List.map_filter_simps reassign_def)
  show ?thesis
    using repair_preserves_room_ids
        [where this = "constructor misfiled_session" and c = misfiled_session]
      before after
    by simp
qed

section \<open>The write-back of the repaired map\<close>

lemma getUserToRooms_write:
  "hasSentOutPatchDirectAccountDataPatch (snd (getUserToRooms c this))
     = (hasSentOutPatchDirectAccountDataPatch this
        \<or> (userToRooms this = None
            \<and> (case map_of (mDirectEvent this) (getUserId c) of None \<Rightarrow> False | Some l \<Rightarrow> l \<noteq> [])
            \<and> snd (patchUpSelfDMs c (mDirectEvent this))))"
  "setAccountDataCalls (snd (getUserToRooms c this))
     = (if userToRooms this = None
           \<and> (case map_of (mDirectEvent this) (getUserId c) of None \<Rightarrow> False | Some l \<Rightarrow> l \<noteq> [])
           \<and> snd (patchUpSelfDMs c (mDirectEvent this))
           \<and> \<not> hasSentOutPatchDirectAccountDataPatch this
        then setAccountDataCalls this @ [fst (patchUpSelfDMs c (mDirectEvent this))]
        else setAccountDataCalls this)"
  by (auto simp add: getUserToRooms_def Let_def split: option.splits prod.splits)

lemma getDMRoomForIdentifiers_snd:
  "snd (getDMRoomForIdentifiers c peg this ids) = snd (getUserToRooms c this)"
proof (cases ids)
  case Nil
  then show ?thesis
    by (simp add: getDMRoomForIdentifiers_def getDMRoomsForUserId_def split: prod.splits)
next
  case (Cons i rest)
  then show ?thesis
    by (simp add: getDMRoomForIdentifiers_eq)
qed

text \<open>
  Every call leaves the flag and the trace of write-backs as they were, or as one rebuild
  of the user index leaves them.
\<close>

lemma perform_write:
  "(hasSentOutPatchDirectAccountDataPatch (perform c peg call this)
      = hasSentOutPatchDirectAccountDataPatch this
    \<and> setAccountDataCalls (perform c peg call this) = setAccountDataCalls this)
   \<or> (hasSentOutPatchDirectAccountDataPatch (perform c peg call this)
        = hasSentOutPatchDirectAccountDataPatch (snd (getUserToRooms c this))
      \<and> setAccountDataCalls (perform c peg call this)
          = setAccountDataCalls (snd (getUserToRooms c this)))"
proof (cases call)
  case Start
  then show ?thesis by (simp add: populateRoomToUser_eq)
next
  case (OnAccountData ev)
  then show ?thesis by (simp add: onAccountData_def)
next
  case (GetDMRoomsForUserId userId)
  then show ?thesis by (simp add: getDMRoomsForUserId_snd)
next
  case (GetDMRoomForIdentifiers ids)
  then show ?thesis by (simp add: getDMRoomForIdentifiers_snd)
next
  case (GetUserIdForRoomId roomId)
  then show ?thesis by (simp add: getUserIdForRoomId_snd populateRoomToUser_eq)
next
  case GetUniqueRoomsWithIndividuals
  then show ?thesis by (simp add: unique_rooms_state)
next
  case GetRoomIds
  then show ?thesis by simp
qed

lemma perform_once:
  assumes "if hasSentOutPatchDirectAccountDataPatch this
           then length (setAccountDataCalls this) = 1 else setAccountDataCalls this = []"
  shows "if hasSentOutPatchDirectAccountDataPatch (perform c peg call this)
         then length (setAccountDataCalls (perform c peg call this)) = 1
         else setAccountDataCalls (perform c peg call this) = []"
  using perform_write [of c peg call this] assms
  by (auto simp add: getUserToRooms_write split: if_splits)

lemma perform_flagged:
  assumes "hasSentOutPatchDirectAccountDataPatch this"
  shows "hasSentOutPatchDirectAccountDataPatch (perform c peg call this)
       \<and> setAccountDataCalls (perform c peg call this) = setAccountDataCalls this"
  using perform_write [of c peg call this] assms
  by (auto simp add: getUserToRooms_write)

lemma run_once:
  assumes "if hasSentOutPatchDirectAccountDataPatch this
           then length (setAccountDataCalls this) = 1 else setAccountDataCalls this = []"
  shows "if hasSentOutPatchDirectAccountDataPatch (run calls this)
         then length (setAccountDataCalls (run calls this)) = 1
         else setAccountDataCalls (run calls this) = []"
  using assms
proof (induction calls arbitrary: this)
  case Nil
  then show ?case by (simp add: run_def)
next
  case (Cons x calls)
  obtain c peg call where x: "x = (c, peg, call)" by (cases x)
  have "run (x # calls) this = run calls (perform c peg call this)"
    by (simp add: run_def x)
  then show ?case
    using Cons.IH [OF perform_once [OF Cons.prems, of c peg call]] by simp
qed

lemma run_flagged:
  assumes "hasSentOutPatchDirectAccountDataPatch this"
  shows "hasSentOutPatchDirectAccountDataPatch (run calls this)
       \<and> setAccountDataCalls (run calls this) = setAccountDataCalls this"
  using assms
proof (induction calls arbitrary: this)
  case Nil
  then show ?case by (simp add: run_def)
next
  case (Cons x calls)
  obtain c peg call where x: "x = (c, peg, call)" by (cases x)
  have step: "run (x # calls) this = run calls (perform c peg call this)"
    by (simp add: run_def x)
  have flagged: "hasSentOutPatchDirectAccountDataPatch (perform c peg call this)"
    and same: "setAccountDataCalls (perform c peg call this) = setAccountDataCalls this"
    using perform_flagged [OF Cons.prems, of c peg call] by simp_all
  show ?case
    unfolding step using Cons.IH [OF flagged] same by simp
qed

text \<open>
  Claim C2, for one instance. From the construction of an instance on, whatever calls it
  receives in whatever sessions, it attempts at most one write-back. A rebuild of its
  user index that applies a reassignment while its flag is unset sets the flag and
  attempts the write, with the repaired map. Once the flag is set, no sequence of calls
  (rebuilds after further notifications of the same anomaly among them) adds a write-back
  or unsets the flag; the outcome of the write is not looked at.
\<close>

theorem one_write_back_per_instance:
  "length (setAccountDataCalls (run calls (constructor c0))) \<le> 1
   \<and> (userToRooms this = None
        \<and> (case map_of (mDirectEvent this) (getUserId c) of None \<Rightarrow> False | Some l \<Rightarrow> l \<noteq> [])
        \<and> snd (patchUpSelfDMs c (mDirectEvent this))
        \<and> \<not> hasSentOutPatchDirectAccountDataPatch this
      \<longrightarrow> hasSentOutPatchDirectAccountDataPatch (snd (getUserToRooms c this))
          \<and> setAccountDataCalls (snd (getUserToRooms c this))
              = setAccountDataCalls this @ [fst (patchUpSelfDMs c (mDirectEvent this))])
   \<and> (hasSentOutPatchDirectAccountDataPatch this
      \<longrightarrow> hasSentOutPatchDirectAccountDataPatch (run calls this)
          \<and> setAccountDataCalls (run calls this) = setAccountDataCalls this)"
proof -
  have "if hasSentOutPatchDirectAccountDataPatch (run calls (constructor c0))
        then length (setAccountDataCalls (run calls (constructor c0))) = 1
        else setAccountDataCalls (run calls (constructor c0)) = []"
    by (rule run_once) (simp add: constructor_fields)
  then have "length (setAccountDataCalls (run calls (constructor c0))) \<le> 1"
    by (simp split: if_splits)
  then show ?thesis
    using run_flagged [of this calls]
    by (simp add: getUserToRooms_write)
qed

theorem one_write_back_per_instance_witness:
  "setAccountDataCalls
     (run [(misfiled_session, misfiled_session, GetDMRoomsForUserId ''@bob:hs'')]
        (constructor misfiled_session))
     = [[(''@me:hs'', []), (''@bob:hs'', [''!r:hs''])]]
   \<and> hasSentOutPatchDirectAccountDataPatch
       (run [(misfiled_session, misfiled_session, GetDMRoomsForUserId ''@bob:hs'')]
          (constructor misfiled_session))
   \<and> setAccountDataCalls
       (run [(misfiled_session, misfiled_session,
                OnAccountData (direct_event [(''@me:hs'', [''!r:hs''])])),
             (misfiled_session, misfiled_session, GetDMRoomsForUserId ''@bob:hs'')]
          (run [(misfiled_session, misfiled_session, GetDMRoomsForUserId ''@bob:hs'')]
             (constructor misfiled_session)))
       = [[(''@me:hs'', []), (''@bob:hs'', [''!r:hs''])]]"
proof -
  let ?query = "(misfiled_session, misfiled_session, GetDMRoomsForUserId ''@bob:hs'')"
  let ?again = "[(misfiled_session, misfiled_session,
                    OnAccountData (direct_event [(''@me:hs'', [''!r:hs''])])), ?query]"
  have first: "setAccountDataCalls (run [?query] (constructor misfiled_session))
                 = [[(''@me:hs'', []), (''@bob:hs'', [''!r:hs''])]]"
    and flag: "hasSentOutPatchDirectAccountDataPatch (run [?query] (constructor misfiled_session))"
    by (simp_all add: run_def misfiled_session_def constructor_def session_def direct_event_def
        a_room_def EventType_Direct_def getDMRoomsForUserId_def getUserToRooms_def
        patchUpSelfDMs_def guessedUserId_def List.map_filter_simps reassign_def)
  show ?thesis
    using one_write_back_per_instance
        [where this = "run [?query] (constructor misfiled_session)" and calls = ?again
           and c = misfiled_session and ?c0.0 = misfiled_session]
      first flag
    by simp
qed

theorem write_back_per_instance_counterexample:
  "writeBacks
     (onShared (perform misfiled_session misfiled_session (GetDMRoomsForUserId ''@bob:hs''))
        (makeShared misfiled_session
           (onShared (perform misfiled_session misfiled_session (GetDMRoomsForUserId ''@bob:hs''))
              (makeShared misfiled_session process_start))))
     = [[(''@me:hs'', []), (''@bob:hs'', [''!r:hs''])],
        [(''@me:hs'', []), (''@bob:hs'', [''!r:hs''])]]"
  by (simp add: writeBacks_def onShared_def makeShared_def process_start_def
      misfiled_session_def constructor_def session_def direct_event_def
      a_room_def EventType_Direct_def getDMRoomsForUserId_def getUserToRooms_def
      patchUpSelfDMs_def guessedUserId_def List.map_filter_simps reassign_def)

section \<open>A change of the account data\<close>

lemma onAccountData_direct:
  assumes "getType ev = EventType_Direct"
  shows "userToRooms (onAccountData ev this) = None"
    and "roomToUser (onAccountData ev this) = None"
    and "mDirectEvent (onAccountData ev this)
           = (case getContent ev of None \<Rightarrow> [] | Some content \<Rightarrow> content)"
  using assms by (simp_all add: onAccountData_def)

text \<open>
  What the queries return, and what the calls leave in the three fields \<^verbatim>\<open>roomToUser\<close>,
  \<^verbatim>\<open>userToRooms\<close> and \<^verbatim>\<open>mDirectEvent\<close>, depends on these three fields only.
\<close>

lemma getUserToRooms_view:
  assumes "userToRooms this = userToRooms that" and "mDirectEvent this = mDirectEvent that"
  shows "fst (getUserToRooms c this) = fst (getUserToRooms c that)"
    and "userToRooms (snd (getUserToRooms c this)) = userToRooms (snd (getUserToRooms c that))"
    and "mDirectEvent (snd (getUserToRooms c this)) = mDirectEvent (snd (getUserToRooms c that))"
proof -
  show index: "fst (getUserToRooms c this) = fst (getUserToRooms c that)"
  proof (cases "userToRooms that")
    case None
    then show ?thesis
      using assms by (simp add: getUserToRooms_fst_unbuilt)
  next
    case (Some obj)
    then show ?thesis
      using assms by (simp add: getUserToRooms_cached)
  qed
  then show "userToRooms (snd (getUserToRooms c this)) = userToRooms (snd (getUserToRooms c that))"
    by (simp add: getUserToRooms_builds)
  show "mDirectEvent (snd (getUserToRooms c this)) = mDirectEvent (snd (getUserToRooms c that))"
  proof (cases "userToRooms that")
    case None
    then show ?thesis
      using assms index by (simp add: getUserToRooms_stored)
  next
    case (Some obj)
    then show ?thesis
      using assms by (simp add: getUserToRooms_cached)
  qed
qed

lemma perform_view:
  assumes "roomToUser this = roomToUser that \<and> userToRooms this = userToRooms that
           \<and> mDirectEvent this = mDirectEvent that"
  shows "roomToUser (perform c peg call this) = roomToUser (perform c peg call that)
       \<and> userToRooms (perform c peg call this) = userToRooms (perform c peg call that)
       \<and> mDirectEvent (perform c peg call this) = mDirectEvent (perform c peg call that)"
proof -
  have rebuilt:
    "fst (getUserToRooms c this) = fst (getUserToRooms c that)"
    "userToRooms (snd (getUserToRooms c this)) = userToRooms (snd (getUserToRooms c that))"
    "mDirectEvent (snd (getUserToRooms c this)) = mDirectEvent (snd (getUserToRooms c that))"
    "roomToUser (snd (getUserToRooms c this)) = roomToUser (snd (getUserToRooms c that))"
    using assms getUserToRooms_view [of this that c]
    by (simp_all add: getUserToRooms_roomToUser)
  show ?thesis
  proof (cases call)
    case Start
    then show ?thesis using rebuilt by (simp add: populateRoomToUser_eq)
  next
    case (OnAccountData ev)
    then show ?thesis using assms by (simp add: onAccountData_def)
  next
    case (GetDMRoomsForUserId userId)
    then show ?thesis using rebuilt by (simp add: getDMRoomsForUserId_snd)
  next
    case (GetDMRoomForIdentifiers ids)
    then show ?thesis using rebuilt by (simp add: getDMRoomForIdentifiers_snd)
  next
    case (GetUserIdForRoomId roomId)
    then show ?thesis
      using rebuilt assms by (simp add: getUserIdForRoomId_snd populateRoomToUser_eq)
  next
    case GetUniqueRoomsWithIndividuals
    then show ?thesis using assms by (simp add: unique_rooms_state)
  next
    case GetRoomIds
    then show ?thesis using assms by simp
  qed
qed

lemma run_view:
  assumes "roomToUser this = roomToUser that \<and> userToRooms this = userToRooms that
           \<and> mDirectEvent this = mDirectEvent that"
  shows "roomToUser (run calls this) = roomToUser (run calls that)
       \<and> userToRooms (run calls this) = userToRooms (run calls that)
       \<and> mDirectEvent (run calls this) = mDirectEvent (run calls that)"
  using assms
proof (induction calls arbitrary: this that)
  case Nil
  then show ?case by (simp add: run_def)
next
  case (Cons x calls)
  obtain c peg call where x: "x = (c, peg, call)" by (cases x)
  have step: "run (x # calls) s = run calls (perform c peg call s)" for s
    by (simp add: run_def x)
  show ?case
    unfolding step by (rule Cons.IH) (rule perform_view [OF Cons.prems])
qed

lemma query_view:
  assumes "roomToUser this = roomToUser that \<and> userToRooms this = userToRooms that
           \<and> mDirectEvent this = mDirectEvent that"
  shows "fst (getDMRoomsForUserId c this u) = fst (getDMRoomsForUserId c that u)"
    and "fst (getUserIdForRoomId c this R) = fst (getUserIdForRoomId c that R)"
proof -
  have index: "fst (getUserToRooms c this) = fst (getUserToRooms c that)"
    using assms getUserToRooms_view(1) [of this that c] by simp
  then show "fst (getDMRoomsForUserId c this u) = fst (getDMRoomsForUserId c that u)"
    by (simp add: getDMRoomsForUserId_fst)
  show "fst (getUserIdForRoomId c this R) = fst (getUserIdForRoomId c that R)"
  proof (cases "roomToUser that")
    case None
    then show ?thesis
      using assms index
      by (simp add: getUserIdForRoomId_def populateRoomToUser_eq Let_def split: option.splits)
  next
    case (Some obj)
    then show ?thesis
      using assms by (simp add: getUserIdForRoomId_indexed)
  qed
qed

text \<open>
  Claim C5. After a notification of the Direct Map event type, whatever the instance held
  before (the old map, the indexes built from it or not), and after any further calls, the
  rooms-for-user query and the user-for-room query return what they return on an instance
  that was newly constructed on the content of the notification and received the same
  calls: nothing of the old map is left in the results.
\<close>

theorem change_invalidates:
  assumes "getType ev = EventType_Direct"
      and "getAccountData c0 EventType_Direct = Some ev"
  shows "fst (getDMRoomsForUserId c (run calls (onAccountData ev this)) u)
           = fst (getDMRoomsForUserId c (run calls (constructor c0)) u)
       \<and> fst (getUserIdForRoomId c (run calls (onAccountData ev this)) R)
           = fst (getUserIdForRoomId c (run calls (constructor c0)) R)"
proof -
  have "roomToUser (onAccountData ev this) = roomToUser (constructor c0)
        \<and> userToRooms (onAccountData ev this) = userToRooms (constructor c0)
        \<and> mDirectEvent (onAccountData ev this) = mDirectEvent (constructor c0)"
    using assms(2) by (simp add: onAccountData_direct [OF assms(1)] constructor_fields)
  then have "roomToUser (run calls (onAccountData ev this)) = roomToUser (run calls (constructor c0))
        \<and> userToRooms (run calls (onAccountData ev this)) = userToRooms (run calls (constructor c0))
        \<and> mDirectEvent (run calls (onAccountData ev this)) = mDirectEvent (run calls (constructor c0))"
    by (rule run_view)
  then show ?thesis
    using query_view(1) [where this = "run calls (onAccountData ev this)"
          and that = "run calls (constructor c0)" and c = c and u = u]
      query_view(2) [where this = "run calls (onAccountData ev this)"
          and that = "run calls (constructor c0)" and c = c and R = R]
    by simp
qed

theorem change_invalidates_witness:
  "roomToUser (populateRoomToUser misfiled_session (constructor misfiled_session))
     = Some [(''!r:hs'', ''@bob:hs'')]
   \<and> fst (getDMRoomsForUserId misfiled_session
        (onAccountData (direct_event [(''@alice:hs'', [''!r1:hs''])])
           (populateRoomToUser misfiled_session (constructor misfiled_session))) ''@bob:hs'') = []
   \<and> fst (getDMRoomsForUserId misfiled_session
        (onAccountData (direct_event [(''@alice:hs'', [''!r1:hs''])])
           (populateRoomToUser misfiled_session (constructor misfiled_session))) ''@alice:hs'')
       = [''!r1:hs'']
   \<and> fst (getUserIdForRoomId misfiled_session
        (onAccountData (direct_event [(''@alice:hs'', [''!r1:hs''])])
           (populateRoomToUser misfiled_session (constructor misfiled_session))) ''!r1:hs'')
       = Some ''@alice:hs''
   \<and> fst (getUserIdForRoomId misfiled_session
        (onAccountData (direct_event [(''@alice:hs'', [''!r1:hs''])])
           (populateRoomToUser misfiled_session (constructor misfiled_session))) ''!r:hs'')
       = None"
proof -
  let ?ev = "direct_event [(''@alice:hs'', [''!r1:hs''])] :: (string list) matrixEvent"
  let ?old = "populateRoomToUser misfiled_session (constructor misfiled_session)"
  let ?c0 = "misfiled_session\<lparr> getAccountData := \<lambda>_. Some ?ev \<rparr>"
  have direct: "getType ?ev = EventType_Direct"
    by (simp add: direct_event_def)
  have data: "getAccountData ?c0 EventType_Direct = Some ?ev"
    by simp
  have built: "roomToUser ?old = Some [(''!r:hs'', ''@bob:hs'')]"
    by (simp add: misfiled_session_def constructor_def session_def direct_event_def a_room_def
        EventType_Direct_def getUserToRooms_def populateRoomToUser_def invertUserToRooms_def
        patchUpSelfDMs_def guessedUserId_def List.map_filter_simps reassign_def)
  have fresh:
    "fst (getDMRoomsForUserId misfiled_session (constructor ?c0) ''@bob:hs'') = []"
    "fst (getDMRoomsForUserId misfiled_session (constructor ?c0) ''@alice:hs'') = [''!r1:hs'']"
    "fst (getUserIdForRoomId misfiled_session (constructor ?c0) ''!r1:hs'') = Some ''@alice:hs''"
    "fst (getUserIdForRoomId misfiled_session (constructor ?c0) ''!r:hs'') = None"
    by (simp_all add: misfiled_session_def constructor_def session_def direct_event_def a_room_def
        EventType_Direct_def getDMRoomsForUserId_def getUserToRooms_def getUserIdForRoomId_def
        populateRoomToUser_def invertUserToRooms_def)
  have none_yet: "run [] s = s" for s :: "(string list) dmRoomMap"
    by (simp add: run_def)
  show ?thesis
    using change_invalidates [OF direct data, of misfiled_session "[]" ?old "''@bob:hs''" "''!r:hs''"]
      change_invalidates [OF direct data, of misfiled_session "[]" ?old "''@alice:hs''" "''!r1:hs''"]
      built fresh
    by (simp add: none_yet)
qed

section \<open>The states of an instance\<close>

lemma cache_ok_perform: "cache_ok this \<Longrightarrow> cache_ok (perform c peg call this)"
proof (cases call)
  case Start
  assume "cache_ok this"
  then show ?thesis using Start by (simp add: cache_ok_populateRoomToUser)
next
  case (OnAccountData ev)
  assume "cache_ok this"
  then show ?thesis using OnAccountData by (simp add: cache_ok_onAccountData)
next
  case (GetDMRoomsForUserId userId)
  assume "cache_ok this"
  then show ?thesis
    using GetDMRoomsForUserId by (simp add: getDMRoomsForUserId_snd cache_ok_getUserToRooms)
next
  case (GetDMRoomForIdentifiers ids)
  assume "cache_ok this"
  then show ?thesis
    using GetDMRoomForIdentifiers by (simp add: getDMRoomForIdentifiers_snd cache_ok_getUserToRooms)
next
  case (GetUserIdForRoomId roomId)
  assume "cache_ok this"
  then show ?thesis
    using GetUserIdForRoomId by (simp add: getUserIdForRoomId_snd cache_ok_populateRoomToUser)
next
  case GetUniqueRoomsWithIndividuals
  assume "cache_ok this"
  then show ?thesis using GetUniqueRoomsWithIndividuals by (simp add: unique_rooms_state)
next
  case GetRoomIds
  assume "cache_ok this"
  then show ?thesis using GetRoomIds by simp
qed

lemma cache_ok_run: "cache_ok this \<Longrightarrow> cache_ok (run calls this)"
proof (induction calls arbitrary: this)
  case Nil
  then show ?case by (simp add: run_def)
next
  case (Cons x calls)
  obtain c peg call where x: "x = (c, peg, call)" by (cases x)
  have "run (x # calls) this = run calls (perform c peg call this)"
    by (simp add: run_def x)
  then show ?case
    using Cons.IH [OF cache_ok_perform [OF Cons.prems, of c peg call]] by simp
qed

text \<open>Every state that an instance reaches from its construction is one of these.\<close>

lemma cache_ok_reachable: "cache_ok (run calls (constructor c))"
  by (rule cache_ok_run) (rule cache_ok_constructor)

section \<open>Absent and malformed account data\<close>

lemma reduce_values_arrays:
  assumes "\<forall>v \<in> set vs. is_array v"
  shows "\<exists>ids. reduce_values vs prevRoomIds = Inr ids"
  using assms
proof (induction vs arbitrary: prevRoomIds)
  case Nil
  then show ?case by simp
next
  case (Cons v vs)
  then obtain xs where "v = JArray xs"
    by (cases v) (simp_all add: is_array_def)
  then show ?case
    using Cons by (simp add: forEach_add_def)
qed

text \<open>
  On content of the declared type the unchecked \<^verbatim>\<open>getRoomIds\<close> is the typed one.
\<close>

lemma forEach_add_room_list:
  "forEach_add (room_list v) prevRoomIds = Inr (prevRoomIds \<union> JString ` set v)"
proof -
  have "fold insert (map JString v) prevRoomIds = set (map JString v) \<union> prevRoomIds"
    by (rule union_set_fold [symmetric])
  then show ?thesis
    by (simp add: forEach_add_def room_list_def Un_commute)
qed

lemma reduce_values_room_lists:
  "reduce_values (map room_list vs) prevRoomIds
     = Inr (prevRoomIds \<union> JString ` (\<Union>v \<in> set vs. set v))"
proof (induction vs arbitrary: prevRoomIds)
  case Nil
  then show ?case by simp
next
  case (Cons v vs)
  show ?case
    by (simp add: Cons.IH forEach_add_room_list image_Un Un_assoc)
qed

lemma getRoomIds_unchecked_typed:
  assumes "mDirectEvent raw = map (\<lambda>p. (fst p, room_list (snd p))) (mDirectEvent this)"
  shows "getRoomIds_unchecked raw = Inr (JString ` getRoomIds this)"
proof -
  have vals: "map snd (mDirectEvent raw) = map room_list (map snd (mDirectEvent this))"
    by (simp add: assms comp_def)
  have "getRoomIds_unchecked raw
          = Inr ({} \<union> JString ` (\<Union>v \<in> set (map snd (mDirectEvent this)). set v))"
    unfolding getRoomIds_unchecked_def vals by (rule reduce_values_room_lists)
  then show ?thesis
    by (simp add: getRoomIds_eq)
qed

lemma constructor_absent:
  assumes "getAccountData c EventType_Direct = None
           \<or> (\<exists>ev. getAccountData c EventType_Direct = Some ev \<and> getContent ev = None)"
  shows "mDirectEvent (constructor c) = []"
  using assms by (auto simp add: constructor_fields)

text \<open>
  Claim C9, as the code has it. When the session has no Direct Map event, or an event
  without content, the constructor stores the empty map, and on that instance every
  query returns without raising: the all-room-identifiers query returns the empty set,
  rooms-for-user the empty list, the common-room query no room, the unique-1:1 query the
  empty mapping, and user-for-room the inviter hint of the room, if the session has the
  room. Content that is there is stored as it is; the all-room-identifiers query returns
  without raising whenever every value of the stored map is an array.
\<close>

theorem absent_account_data_is_empty:
  "((getAccountData c EventType_Direct = None
      \<or> (\<exists>ev. getAccountData c EventType_Direct = Some ev \<and> getContent ev = None))
     \<longrightarrow> mDirectEvent (constructor c) = []
         \<and> getRoomIds_unchecked (constructor c) = Inr {})
   \<and> ((\<forall>v \<in> set (map snd (mDirectEvent raw)). is_array v)
        \<longrightarrow> (\<exists>ids. getRoomIds_unchecked raw = Inr ids))
   \<and> ((getAccountData ct EventType_Direct = None
      \<or> (\<exists>ev. getAccountData ct EventType_Direct = Some ev \<and> getContent ev = None))
     \<longrightarrow> mDirectEvent (constructor ct) = []
         \<and> getRoomIds (constructor ct) = {}
         \<and> fst (getDMRoomsForUserId ct (constructor ct) u) = []
         \<and> fst (getDMRoomForIdentifiers ct peg (constructor ct) ids) = None
         \<and> fst (getUniqueRoomsWithIndividuals ct (constructor ct)) = []
         \<and> fst (getUserIdForRoomId ct (constructor ct) R)
             = (case getRoom ct R of None \<Rightarrow> None | Some room \<Rightarrow> getDMInviter room))"
proof (intro conjI impI)
  assume absent: "getAccountData c EventType_Direct = None
      \<or> (\<exists>ev. getAccountData c EventType_Direct = Some ev \<and> getContent ev = None)"
  show "mDirectEvent (constructor c) = []"
    using absent by (rule constructor_absent)
  then show "getRoomIds_unchecked (constructor c) = Inr {}"
    by (simp add: getRoomIds_unchecked_def)
next
  assume "\<forall>v \<in> set (map snd (mDirectEvent raw)). is_array v"
  then show "\<exists>ids. getRoomIds_unchecked raw = Inr ids"
    unfolding getRoomIds_unchecked_def by (rule reduce_values_arrays)
next
  assume absent: "getAccountData ct EventType_Direct = None
      \<or> (\<exists>ev. getAccountData ct EventType_Direct = Some ev \<and> getContent ev = None)"
  have empty: "mDirectEvent (constructor ct) = []"
    using absent by (rule constructor_absent)
  have unbuilt: "userToRooms (constructor ct) = None"
    by (rule constructor_fields(1))
  have noself: "map_of (mDirectEvent (constructor ct)) (getUserId ct) = None
                \<or> map_of (mDirectEvent (constructor ct)) (getUserId ct) = Some []"
    by (simp add: empty)
  have index: "getUserToRooms ct (constructor ct) = ([], (constructor ct)\<lparr> userToRooms := Some [] \<rparr>)"
    using getUserToRooms_untouched [OF unbuilt noself] by (simp only: empty)
  have rooms: "fst (getDMRoomsForUserId ct (constructor ct) i) = []" for i
    by (simp add: getDMRoomsForUserId_fst index)
  show "mDirectEvent (constructor ct) = []"
    by (rule empty)
  show "getRoomIds (constructor ct) = {}"
    by (simp add: getRoomIds_eq empty)
  show "fst (getDMRoomsForUserId ct (constructor ct) u) = []"
    by (rule rooms)
  show "fst (getDMRoomForIdentifiers ct peg (constructor ct) ids) = None"
  proof (cases ids)
    case Nil
    obtain first this0 where q: "getDMRoomsForUserId ct (constructor ct) ''undefined'' = (first, this0)"
      by (cases "getDMRoomsForUserId ct (constructor ct) ''undefined''")
    then have "first = []"
      using rooms [of "''undefined''"] by simp
    then show ?thesis
      using Nil q by (simp add: getDMRoomForIdentifiers_def)
  next
    case (Cons i rest)
    then show ?thesis
      by (simp add: getDMRoomForIdentifiers_eq rooms)
  qed
  show "fst (getUniqueRoomsWithIndividuals ct (constructor ct)) = []"
    by (simp add: getUniqueRoomsWithIndividuals_def constructor_fields(2))
  show "fst (getUserIdForRoomId ct (constructor ct) R)
          = (case getRoom ct R of None \<Rightarrow> None | Some room \<Rightarrow> getDMInviter room)"
    by (simp add: getUserIdForRoomId_fst [OF cache_ok_constructor] index invertUserToRooms_def)
qed

theorem absent_account_data_is_empty_witness:
  "getAccountData (session ''@me:hs'' [] None :: json matrixClient) EventType_Direct = None
   \<and> getRoomIds_unchecked (constructor (session ''@me:hs'' [] None)) = Inr {}
   \<and> getRoomIds_unchecked
       (constructor (session ''@me:hs'' []
          (Some (direct_event [(''@alice:hs'', room_list [''!r1:hs'', ''!r2:hs''])]))))
       = Inr {JString ''!r1:hs'', JString ''!r2:hs''}
   \<and> fst (getDMRoomsForUserId (session ''@me:hs'' [] None)
            (constructor (session ''@me:hs'' [] None)) ''@alice:hs'') = []"
proof -
  let ?absent = "session ''@me:hs'' [] None :: json matrixClient"
  let ?typed = "session ''@me:hs'' [] None :: (string list) matrixClient"
  let ?listed = "constructor (session ''@me:hs'' []
          (Some (direct_event [(''@alice:hs'', room_list [''!r1:hs'', ''!r2:hs''])])))"
  have absent: "getAccountData ?absent EventType_Direct = None"
    and typed: "getAccountData ?typed EventType_Direct = None"
    by (simp_all add: session_def)
  have arrays: "\<forall>v \<in> set (map snd (mDirectEvent ?listed)). is_array v"
    by (simp add: constructor_def session_def direct_event_def room_list_def is_array_def)
  have listed: "getRoomIds_unchecked ?listed = Inr {JString ''!r1:hs'', JString ''!r2:hs''}"
    by (simp add: getRoomIds_unchecked_def constructor_def session_def direct_event_def
        room_list_def forEach_add_def insert_commute)
  show ?thesis
    using absent_account_data_is_empty
        [where c = ?absent and raw = ?listed and ct = ?typed and u = "''@alice:hs''"
           and peg = ?typed and ids = "[]" and R = "''!r:hs''"]
      absent typed arrays listed
    by simp
qed

theorem malformed_account_data_counterexample:
  "mDirectEvent (constructor malformed_session) = [(''@alice:hs'', JString ''!r:hs'')]
   \<and> mDirectEvent (constructor malformed_session) \<noteq> []
   \<and> getRoomIds_unchecked (constructor malformed_session) = Inl TypeError"
  by (simp add: malformed_session_def constructor_def session_def direct_event_def
      EventType_Direct_def getRoomIds_unchecked_def forEach_add_def)

end
